theory Spec2Isabelle
  imports Complex_Main "HOL-Library.Multiset" "HOL-Library.AList"
begin

section \<open>Shared types (types.ts)\<close>

subsection \<open>Severity\<close>

datatype Severity = CRITICAL | HIGH | MEDIUM | LOW | NONE | UNKNOWN

definition SEVERITY_ORDER :: "Severity list" where
  "SEVERITY_ORDER = [CRITICAL, HIGH, MEDIUM, LOW, NONE, UNKNOWN]"

text \<open>
  \<^verbatim>\<open>Array.prototype.indexOf\<close>: the position of the first element equal to the argument,
  \<open>-1\<close> when there is none.
\<close>

fun indexOf_from :: "int \<Rightarrow> 'a list \<Rightarrow> 'a \<Rightarrow> int" where
  "indexOf_from i [] x = -1"
| "indexOf_from i (y # ys) x = (if y = x then i else indexOf_from (i + 1) ys x)"

definition indexOf :: "'a list \<Rightarrow> 'a \<Rightarrow> int" where
  "indexOf xs x = indexOf_from 0 xs x"

definition meetsThreshold :: "Severity \<Rightarrow> Severity \<Rightarrow> bool" where
  "meetsThreshold severity threshold \<longleftrightarrow>
     indexOf SEVERITY_ORDER severity \<le> indexOf SEVERITY_ORDER threshold"

text \<open>
  The order the specification fixes, written as it is worded: the chain
  CRITICAL > HIGH > MEDIUM > LOW > NONE > UNKNOWN, closed under transitivity.
\<close>

inductive more_severe :: "Severity \<Rightarrow> Severity \<Rightarrow> bool" where
  crit_high: "more_severe CRITICAL HIGH"
| high_med: "more_severe HIGH MEDIUM"
| med_low: "more_severe MEDIUM LOW"
| low_none: "more_severe LOW NONE"
| none_unknown: "more_severe NONE UNKNOWN"
| chain: "more_severe a b \<Longrightarrow> more_severe b c \<Longrightarrow> more_severe a c"

definition at_least_as_severe :: "Severity \<Rightarrow> Severity \<Rightarrow> bool" where
  "at_least_as_severe s t \<longleftrightarrow> s = t \<or> more_severe s t"

text \<open>Template-literal rendering of a severity: the value is its own name.\<close>

fun show_Severity :: "Severity \<Rightarrow> string" where
  "show_Severity CRITICAL = ''CRITICAL''"
| "show_Severity HIGH = ''HIGH''"
| "show_Severity MEDIUM = ''MEDIUM''"
| "show_Severity LOW = ''LOW''"
| "show_Severity NONE = ''NONE''"
| "show_Severity UNKNOWN = ''UNKNOWN''"

subsection \<open>Queue entry, policy\<close>

datatype Status = St_pending | St_pr_opened | St_skipped | St_error

text \<open>
  \<^verbatim>\<open>CveQueueEntry\<close>. The field \<^verbatim>\<open>id\<close> is \<open>entry_id\<close> here; an optional field
  (\<^verbatim>\<open>ghsaId?\<close>, \<^verbatim>\<open>prNumber?\<close>, ...) and the nullable score are options. Scores are
  rationals: the comparisons below only use the sign of a difference.
\<close>

record CveQueueEntry =
  entry_id :: string
  ghsaId :: "string option"
  repo :: string
  ecosystem :: string
  affectedPackage :: string
  affectedVersion :: string
  patchedVersion :: string
  severity :: Severity
  cvssScore :: "rat option"
  summary :: string
  nvdUrl :: string
  detectedAt :: string
  status :: Status
  prNumber :: "int option"
  prUrl :: "string option"
  processedAt :: "string option"
  skipReason :: "string option"

record TriagePolicy =
  autoPrThreshold :: Severity
  draftThreshold :: Severity
  maxPrsPerRun :: int
  requirePatchedVersion :: bool

subsection \<open>Numbers in template literals\<close>

definition digit_char :: "nat \<Rightarrow> char" where
  "digit_char d = ''0123456789'' ! d"

function show_nat :: "nat \<Rightarrow> string" where
  "show_nat n = (if n < 10 then [digit_char n] else show_nat (n div 10) @ [digit_char (n mod 10)])"
  by pat_completeness auto
termination
  by (relation "measure id") auto

definition show_int :: "int \<Rightarrow> string" where
  "show_int i = (if i < 0 then ''-'' @ show_nat (nat (- i)) else show_nat (nat i))"

section \<open>Decision layer (layers/decision.ts)\<close>

datatype PlanAction = open_pr | open_draft | skip

record TriagePlan =
  entry :: CveQueueEntry
  action :: PlanAction
  reason :: string

text \<open>\<^verbatim>\<open>e.cvssScore ?? 0\<close>\<close>

definition score_or_0 :: "CveQueueEntry \<Rightarrow> rat" where
  "score_or_0 e = (case cvssScore e of None \<Rightarrow> 0 | Some s \<Rightarrow> s)"

text \<open>
  The comparator handed to \<^verbatim>\<open>sort\<close>:
  \<^verbatim>\<open>indexOf(a.severity) - indexOf(b.severity) || (b.cvssScore ?? 0) - (a.cvssScore ?? 0)\<close>;
  \<^verbatim>\<open>x || y\<close> is \<open>y\<close> exactly when \<open>x\<close> is zero.
\<close>

definition compareEntries :: "CveQueueEntry \<Rightarrow> CveQueueEntry \<Rightarrow> rat" where
  "compareEntries a b =
     (let d = indexOf SEVERITY_ORDER (severity a) - indexOf SEVERITY_ORDER (severity b)
      in if d \<noteq> 0 then of_int d else score_or_0 b - score_or_0 a)"

text \<open>
  \<^verbatim>\<open>Array.prototype.sort\<close> with a comparator is a stable sort: an element goes before
  another when the comparator is negative, and elements that compare equal keep their
  order. Stable insertion from the right computes that result.
\<close>

fun insert_cmp :: "('a \<Rightarrow> 'a \<Rightarrow> rat) \<Rightarrow> 'a \<Rightarrow> 'a list \<Rightarrow> 'a list" where
  "insert_cmp c x [] = [x]"
| "insert_cmp c x (y # ys) = (if c x y \<le> 0 then x # y # ys else y # insert_cmp c x ys)"

definition sort_cmp :: "('a \<Rightarrow> 'a \<Rightarrow> rat) \<Rightarrow> 'a list \<Rightarrow> 'a list" where
  "sort_cmp c xs = foldr (insert_cmp c) xs []"

definition em_dash :: string where
  "em_dash = [CHR 0xE2, CHR 0x80, CHR 0x94]"

definition cap_reason :: "TriagePolicy \<Rightarrow> string" where
  "cap_reason policy = ''PR cap reached ('' @ show_int (maxPrsPerRun policy) @ '' per run)''"

text \<open>The body of the \<^verbatim>\<open>for\<close> loop of \<^verbatim>\<open>triage\<close>; \<open>prCount\<close> is the running counter.\<close>

fun triage_loop :: "TriagePolicy \<Rightarrow> int \<Rightarrow> CveQueueEntry list \<Rightarrow> TriagePlan list" where
  "triage_loop policy prCount [] = []"
| "triage_loop policy prCount (e # rest) =
     (if prCount \<ge> maxPrsPerRun policy \<and> meetsThreshold (severity e) (autoPrThreshold policy)
      then \<lparr>entry = e, action = skip, reason = cap_reason policy\<rparr>
             # triage_loop policy prCount rest
      else if requirePatchedVersion policy
              \<and> (patchedVersion e = [] \<or> patchedVersion e = ''unknown'')
      then \<lparr>entry = e, action = skip, reason = ''No patched version available yet''\<rparr>
             # triage_loop policy prCount rest
      else if \<not> meetsThreshold (severity e) (autoPrThreshold policy)
      then \<lparr>entry = e, action = skip,
             reason = ''Severity '' @ show_Severity (severity e) @ '' below auto-PR threshold ''
                        @ show_Severity (autoPrThreshold policy)\<rparr>
             # triage_loop policy prCount rest
      else if severity e = CRITICAL
      then \<lparr>entry = e, action = open_pr,
             reason = ''CRITICAL '' @ em_dash @ '' immediate confirmed PR''\<rparr>
             # triage_loop policy (prCount + 1) rest
      else \<lparr>entry = e, action = open_draft,
             reason = show_Severity (severity e) @ '' '' @ em_dash @ '' draft PR for review''\<rparr>
             # triage_loop policy (prCount + 1) rest)"

definition triage :: "CveQueueEntry list \<Rightarrow> TriagePolicy \<Rightarrow> TriagePlan list" where
  "triage entries policy =
     triage_loop policy 0
       (sort_cmp compareEntries (filter (\<lambda>e. status e = St_pending) entries))"

definition DEFAULT_POLICY :: TriagePolicy where
  "DEFAULT_POLICY = \<lparr>autoPrThreshold = HIGH, draftThreshold = HIGH, maxPrsPerRun = 5,
     requirePatchedVersion = True\<rparr>"

text \<open>The two plans the loop builds for an entry that acts, and the plan of a capped entry.\<close>

definition acting_plan :: "CveQueueEntry \<Rightarrow> TriagePlan" where
  "acting_plan e =
     (if severity e = CRITICAL
      then \<lparr>entry = e, action = open_pr,
             reason = ''CRITICAL '' @ em_dash @ '' immediate confirmed PR''\<rparr>
      else \<lparr>entry = e, action = open_draft,
             reason = show_Severity (severity e) @ '' '' @ em_dash @ '' draft PR for review''\<rparr>)"

definition capped_plan :: "TriagePolicy \<Rightarrow> CveQueueEntry \<Rightarrow> TriagePlan" where
  "capped_plan policy e = \<lparr>entry = e, action = skip, reason = cap_reason policy\<rparr>"

definition is_acting :: "TriagePlan \<Rightarrow> bool" where
  "is_acting p \<longleftrightarrow> action p = open_pr \<or> action p = open_draft"

definition is_capped :: "TriagePolicy \<Rightarrow> TriagePlan \<Rightarrow> bool" where
  "is_capped policy p \<longleftrightarrow> action p = skip \<and> reason p = cap_reason policy"

text \<open>
  The entry passes the patched-version check of the loop: the policy does not ask for a
  patched version, or the entry names one (neither empty nor the sentinel \<^verbatim>\<open>unknown\<close>).
\<close>

definition has_patch :: "TriagePolicy \<Rightarrow> CveQueueEntry \<Rightarrow> bool" where
  "has_patch policy e \<longleftrightarrow>
     \<not> requirePatchedVersion policy \<or> (patchedVersion e \<noteq> [] \<and> patchedVersion e \<noteq> ''unknown'')"

text \<open>
  "At least as severe, ties broken by the higher score" in the words of the specification
  (a missing score counts as 0).
\<close>

definition goes_before :: "CveQueueEntry \<Rightarrow> CveQueueEntry \<Rightarrow> bool" where
  "goes_before a b \<longleftrightarrow>
     more_severe (severity a) (severity b)
     \<or> (severity a = severity b \<and> score_or_0 b \<le> score_or_0 a)"

text \<open>Sample data: an entry with the given identity, severity, score and patched version.\<close>

definition sample_entry ::
  "string \<Rightarrow> string \<Rightarrow> Severity \<Rightarrow> rat option \<Rightarrow> string \<Rightarrow> Status \<Rightarrow> CveQueueEntry" where
  "sample_entry i r sev sc pv st =
     \<lparr>entry_id = i, ghsaId = None, repo = r, ecosystem = ''npm'', affectedPackage = ''lodash'',
      affectedVersion = ''1.0.0'', patchedVersion = pv, severity = sev, cvssScore = sc,
      summary = ''s'', nvdUrl = ''u'', detectedAt = ''2024-01-01T00:00:00.000Z'', status = st,
      prNumber = None, prUrl = None, processedAt = None, skipReason = None\<rparr>"

definition cap_entries :: "CveQueueEntry list" where
  "cap_entries =
     [sample_entry ''CVE-2024-1'' ''a/b'' HIGH (Some (15/2)) ''2.0.0'' St_pending,
      sample_entry ''CVE-2024-2'' ''a/b'' CRITICAL (Some (49/5)) ''2.0.0'' St_pending,
      sample_entry ''CVE-2024-3'' ''a/b'' HIGH (Some (81/10)) ''2.0.0'' St_pending]"

definition cap_policy :: TriagePolicy where
  "cap_policy = DEFAULT_POLICY\<lparr>maxPrsPerRun := 2\<rparr>"

section \<open>State layer (layers/state.ts)\<close>

subsection \<open>The queue file and the JavaScript Map\<close>

text \<open>
  The queue file is text; every function splits it at newlines and handles each line on
  its own. A line is the empty string, a non-empty string of white space, a string that
  \<^verbatim>\<open>JSON.parse\<close> rejects, or the JSON text of an entry (\<^verbatim>\<open>JSON.stringify\<close> writes an entry
  on one line and \<^verbatim>\<open>JSON.parse\<close> reads it back). The text is modelled by the list of its
  lines: the empty text is the single line \<open>Empty\<close>, as \<^verbatim>\<open>"".split("\n")\<close> is \<^verbatim>\<open>[""]\<close>.
  What the state adapter reads is \<open>None\<close> (\<^verbatim>\<open>null\<close>, no file) or the text.
\<close>

datatype line = Empty | Spaces | Malformed | Rec CveQueueEntry

type_synonym text_file = "line list"

type_synonym store = "text_file option"

text \<open>
  A JavaScript \<^verbatim>\<open>Map\<close> keeps its keys in insertion order: \<^verbatim>\<open>set\<close> on a key that is
  present replaces the value where it stands, \<^verbatim>\<open>set\<close> on a new key appends.
\<close>

type_synonym queue = "(string \<times> CveQueueEntry) list"

definition Map_has :: "string \<Rightarrow> queue \<Rightarrow> bool" where
  "Map_has k m \<longleftrightarrow> k \<in> fst ` set m"

definition Map_get :: "string \<Rightarrow> queue \<Rightarrow> CveQueueEntry option" where
  "Map_get k m = map_of m k"

definition Map_set :: "string \<Rightarrow> CveQueueEntry \<Rightarrow> queue \<Rightarrow> queue" where
  "Map_set k v m = AList.update k v m"

definition Map_delete :: "string \<Rightarrow> queue \<Rightarrow> queue" where
  "Map_delete k m = AList.delete k m"

definition Map_values :: "queue \<Rightarrow> CveQueueEntry list" where
  "Map_values m = map snd m"

text \<open>The key \<^verbatim>\<open>`${entry.id}::${entry.repo}`\<close>.\<close>

definition key_of :: "string \<Rightarrow> string \<Rightarrow> string" where
  "key_of i r = i @ ''::'' @ r"

definition qkey :: "CveQueueEntry \<Rightarrow> string" where
  "qkey e = key_of (entry_id e) (repo e)"

fun parseQueue_loop :: "queue \<Rightarrow> text_file \<Rightarrow> queue" where
  "parseQueue_loop m [] = m"
| "parseQueue_loop m (Rec e # ls) = parseQueue_loop (Map_set (qkey e) e m) ls"
| "parseQueue_loop m (l # ls) = parseQueue_loop m ls"

definition parseQueue :: "text_file \<Rightarrow> queue" where
  "parseQueue raw = parseQueue_loop [] raw"

definition serialize :: "queue \<Rightarrow> text_file" where
  "serialize m = (if m = [] then [Empty] else map Rec (Map_values m))"

text \<open>\<^verbatim>\<open>raw ?? ""\<close> and \<^verbatim>\<open>!raw\<close>\<close>

definition or_empty :: "store \<Rightarrow> text_file" where
  "or_empty raw = (case raw of None \<Rightarrow> [Empty] | Some t \<Rightarrow> t)"

definition falsy :: "store \<Rightarrow> bool" where
  "falsy raw \<longleftrightarrow> raw = None \<or> raw = Some [Empty]"

subsection \<open>enqueue\<close>

record EnqueueResult =
  added :: nat
  duplicates :: nat

fun enqueue_loop :: "queue \<times> nat \<times> nat \<Rightarrow> CveQueueEntry list \<Rightarrow> queue \<times> nat \<times> nat" where
  "enqueue_loop (existing, a, d) [] = (existing, a, d)"
| "enqueue_loop (existing, a, d) (e # es) =
     (if Map_has (qkey e) existing
      then enqueue_loop (existing, a, d + 1) es
      else enqueue_loop (Map_set (qkey e) e existing, a + 1, d) es)"

text \<open>The store after the call (what \<^verbatim>\<open>state.write\<close> leaves) and the returned counts.\<close>

definition enqueue :: "CveQueueEntry list \<Rightarrow> store \<Rightarrow> store \<times> EnqueueResult" where
  "enqueue entries raw =
     (case enqueue_loop (parseQueue (or_empty raw), 0, 0) entries of
        (existing, a, d) \<Rightarrow> (Some (serialize existing), \<lparr>added = a, duplicates = d\<rparr>))"

subsection \<open>list and pending\<close>

datatype StatusFilter = Only Status | All

record ListOpts =
  opt_status :: "StatusFilter option"
  opt_severityMin :: "Severity option"
  opt_repo :: "string option"
  opt_limit :: "int option"

record ListResult =
  l_total :: nat
  l_entries :: "CveQueueEntry list"

text \<open>\<^verbatim>\<open>xs.slice(0, n)\<close>: a negative \<open>n\<close> counts from the end.\<close>

definition slice0 :: "'a list \<Rightarrow> int \<Rightarrow> 'a list" where
  "slice0 xs n = (if n < 0 then take (nat (int (length xs) + n)) xs else take (nat n) xs)"

definition list_keep :: "StatusFilter \<Rightarrow> string option \<Rightarrow> int \<Rightarrow> CveQueueEntry \<Rightarrow> bool" where
  "list_keep st rp thresholdIdx e =
     (if st \<noteq> All \<and> Only (status e) \<noteq> st then False
      else if (case rp of None \<Rightarrow> False | Some r \<Rightarrow> r \<noteq> [] \<and> repo e \<noteq> r) then False
      else if indexOf SEVERITY_ORDER (severity e) > thresholdIdx then False
      else True)"

definition list_queue :: "store \<Rightarrow> ListOpts \<Rightarrow> ListResult" where
  "list_queue raw opts =
     (if falsy raw then \<lparr>l_total = 0, l_entries = []\<rparr>
      else
        let queue = parseQueue (the raw);
            st = (case opt_status opts of None \<Rightarrow> Only St_pending | Some s \<Rightarrow> s);
            thresholdIdx = indexOf SEVERITY_ORDER
              (case opt_severityMin opts of None \<Rightarrow> LOW | Some s \<Rightarrow> s);
            limit = (case opt_limit opts of None \<Rightarrow> 50 | Some n \<Rightarrow> n);
            es = sort_cmp compareEntries
                   (filter (list_keep st (opt_repo opts) thresholdIdx) (Map_values queue))
        in \<lparr>l_total = length es, l_entries = slice0 es limit\<rparr>)"

definition pending :: "store \<Rightarrow> CveQueueEntry list" where
  "pending raw =
     l_entries (list_queue raw \<lparr>opt_status = Some (Only St_pending), opt_severityMin = None,
        opt_repo = None, opt_limit = Some 1000\<rparr>)"

subsection \<open>update\<close>

record QueueUpdate =
  u_id :: string
  u_repo :: string
  u_status :: Status
  u_prNumber :: "int option"
  u_prUrl :: "string option"
  u_skipReason :: "string option"

record UpdateResult =
  updated :: nat
  notFound :: nat

text \<open>\<^verbatim>\<open>a ?? b\<close> on optional values.\<close>

definition nullish_or :: "'a option \<Rightarrow> 'a option \<Rightarrow> 'a option" where
  "nullish_or a b = (case a of None \<Rightarrow> b | Some x \<Rightarrow> Some x)"

text \<open>The object literal \<^verbatim>\<open>{ ...existing, status, prNumber, prUrl, skipReason, processedAt }\<close>.\<close>

definition apply_update :: "string \<Rightarrow> QueueUpdate \<Rightarrow> CveQueueEntry \<Rightarrow> CveQueueEntry" where
  "apply_update now u existing =
     existing\<lparr>status := u_status u,
       prNumber := nullish_or (u_prNumber u) (prNumber existing),
       prUrl := nullish_or (u_prUrl u) (prUrl existing),
       skipReason := nullish_or (u_skipReason u) (skipReason existing),
       processedAt := Some now\<rparr>"

definition ukey :: "QueueUpdate \<Rightarrow> string" where
  "ukey u = key_of (u_id u) (u_repo u)"

fun update_loop :: "string \<Rightarrow> queue \<times> nat \<times> nat \<Rightarrow> QueueUpdate list \<Rightarrow> queue \<times> nat \<times> nat" where
  "update_loop now (q, n, nf) [] = (q, n, nf)"
| "update_loop now (q, n, nf) (u # us) =
     (case Map_get (ukey u) q of
        None \<Rightarrow> update_loop now (q, n, nf + 1) us
      | Some existing \<Rightarrow>
          update_loop now (Map_set (ukey u) (apply_update now u existing) q, n + 1, nf) us)"

text \<open>\<open>now\<close> is \<^verbatim>\<open>new Date().toISOString()\<close>, read once before the loop.\<close>

definition update :: "QueueUpdate list \<Rightarrow> store \<Rightarrow> string \<Rightarrow> store \<times> UpdateResult" where
  "update updates raw now =
     (case update_loop now (parseQueue (or_empty raw), 0, 0) updates of
        (q, n, nf) \<Rightarrow> (Some (serialize q), \<lparr>updated = n, notFound = nf\<rparr>))"

subsection \<open>compact\<close>

record CompactResult =
  before :: nat
  after :: nat
  removed :: nat
  byStatus :: "(Status \<times> nat) list"

text \<open>\<^verbatim>\<open>removedByStatus[s] = (removedByStatus[s] ?? 0) + 1\<close>\<close>

definition bump :: "Status \<Rightarrow> (Status \<times> nat) list \<Rightarrow> (Status \<times> nat) list" where
  "bump s acc = AList.update s ((case map_of acc s of None \<Rightarrow> 0 | Some n \<Rightarrow> n) + 1) acc"

text \<open>
  The loop \<^verbatim>\<open>for (const [key, entry] of queue)\<close>, which deletes from the map it walks:
  deleting the current key of a \<^verbatim>\<open>Map\<close> does not disturb the iteration, so the loop visits
  every element the map had at the start. \<open>getTime ts\<close> is \<^verbatim>\<open>new Date(ts).getTime()\<close>,
  milliseconds since the epoch, \<open>None\<close> for \<^verbatim>\<open>NaN\<close> (an invalid date), for which every
  comparison is false.
\<close>

fun compact_loop ::
  "(string \<Rightarrow> int option) \<Rightarrow> int \<Rightarrow> queue \<times> (Status \<times> nat) list \<Rightarrow> queue
     \<Rightarrow> queue \<times> (Status \<times> nat) list" where
  "compact_loop getTime cutoff (q, rbs) [] = (q, rbs)"
| "compact_loop getTime cutoff (q, rbs) ((key, e) # rest) =
     (if status e = St_pending then compact_loop getTime cutoff (q, rbs) rest
      else
        let ts = (case processedAt e of None \<Rightarrow> detectedAt e | Some p \<Rightarrow> p)
        in if ts \<noteq> [] \<and> (case getTime ts of None \<Rightarrow> False | Some t \<Rightarrow> t < cutoff)
           then compact_loop getTime cutoff (Map_delete key q, bump (status e) rbs) rest
           else compact_loop getTime cutoff (q, rbs) rest)"

text \<open>\<^verbatim>\<open>Date.now() - (opts.retentionDays ?? 30) * 86400000\<close>, in whole days.\<close>

definition cutoff_of :: "int \<Rightarrow> int option \<Rightarrow> int" where
  "cutoff_of now retentionDays =
     now - (case retentionDays of None \<Rightarrow> 30 | Some d \<Rightarrow> d) * 86400000"

definition compact_queue ::
  "store \<Rightarrow> int option \<Rightarrow> int \<Rightarrow> (string \<Rightarrow> int option) \<Rightarrow> store \<times> CompactResult" where
  "compact_queue raw retentionDays now getTime =
     (if falsy raw then (raw, \<lparr>before = 0, after = 0, removed = 0, byStatus = []\<rparr>)
      else
        let queue = parseQueue (the raw);
            cutoff = cutoff_of now retentionDays
        in case compact_loop getTime cutoff (queue, []) queue of
             (queue', rbs) \<Rightarrow>
               (if length queue - length queue' > 0 then Some (serialize queue') else raw,
                \<lparr>before = length queue, after = length queue',
                 removed = length queue - length queue', byStatus = rbs\<rparr>))"

subsection \<open>Notions used to state the properties of the state layer\<close>

text \<open>The mapping every operation works on: what \<open>parseQueue\<close> makes of the store.\<close>

definition read_queue :: "store \<Rightarrow> queue" where
  "read_queue raw = parseQueue (or_empty raw)"

text \<open>
  The invariant of a queue mapping: the keys of a \<^verbatim>\<open>Map\<close> are distinct, and each entry
  sits under the key built from its own \<^verbatim>\<open>id\<close> and \<^verbatim>\<open>repo\<close>.
\<close>

definition wf_queue :: "queue \<Rightarrow> bool" where
  "wf_queue m \<longleftrightarrow> distinct (map fst m) \<and> (\<forall>p\<in>set m. fst p = qkey (snd p))"

text \<open>
  The entries of a batch that \<open>enqueue\<close> inserts: those whose key is neither among the
  keys seen so far nor carried by an earlier entry of the batch.
\<close>

fun first_new :: "string list \<Rightarrow> CveQueueEntry list \<Rightarrow> CveQueueEntry list" where
  "first_new seen [] = []"
| "first_new seen (e # es) =
     (if qkey e \<in> set seen then first_new seen es else e # first_new (qkey e # seen) es)"

text \<open>The entries written on the lines of a file, in order.\<close>

fun line_entries :: "text_file \<Rightarrow> CveQueueEntry list" where
  "line_entries [] = []"
| "line_entries (Rec e # ls) = e # line_entries ls"
| "line_entries (l # ls) = line_entries ls"

definition id_repo :: "CveQueueEntry \<Rightarrow> string \<times> string" where
  "id_repo e = (entry_id e, repo e)"

text \<open>A run of \<open>enqueue\<close> calls, one per batch, each on the store the previous one left.\<close>

fun enqueue_all :: "CveQueueEntry list list \<Rightarrow> store \<Rightarrow> store" where
  "enqueue_all [] raw = raw"
| "enqueue_all (b # bs) raw = enqueue_all bs (fst (enqueue b raw))"

text \<open>
  The resolution timestamp of an entry (processed, else detected), and what it means for
  it to be older than the cutoff: it is a non-empty string that denotes an instant before
  the cutoff.
\<close>

definition resolution_timestamp :: "CveQueueEntry \<Rightarrow> string" where
  "resolution_timestamp e = (case processedAt e of Some p \<Rightarrow> p | None \<Rightarrow> detectedAt e)"

definition older_than :: "(string \<Rightarrow> int option) \<Rightarrow> int \<Rightarrow> string \<Rightarrow> bool" where
  "older_than getTime cutoff ts \<longleftrightarrow> ts \<noteq> [] \<and> (\<exists>t. getTime ts = Some t \<and> t < cutoff)"

definition expired :: "(string \<Rightarrow> int option) \<Rightarrow> int \<Rightarrow> CveQueueEntry \<Rightarrow> bool" where
  "expired getTime cutoff e \<longleftrightarrow>
     status e \<noteq> St_pending \<and> older_than getTime cutoff (resolution_timestamp e)"

text \<open>
  Two entries agree on every field other than the five that \<open>update\<close> writes.
\<close>

definition same_outside_resolution :: "CveQueueEntry \<Rightarrow> CveQueueEntry \<Rightarrow> bool" where
  "same_outside_resolution e e' \<longleftrightarrow>
     e'\<lparr>status := status e, prNumber := prNumber e, prUrl := prUrl e,
        skipReason := skipReason e, processedAt := processedAt e\<rparr> = e"

text \<open>Sample data for the state layer.\<close>

definition fww_old :: CveQueueEntry where
  "fww_old = sample_entry ''CVE-2024-1'' ''a/b'' HIGH (Some 7) ''2.0.0'' St_pr_opened"

definition fww_rescan :: CveQueueEntry where
  "fww_rescan = sample_entry ''CVE-2024-1'' ''a/b'' CRITICAL (Some 9) ''2.0.1'' St_pending"

definition fww_new :: CveQueueEntry where
  "fww_new = sample_entry ''CVE-2024-2'' ''a/b'' LOW None ''unknown'' St_pending"

text \<open>
  What a batch of updates may do to the entry under key \<open>k\<close>: it changes none of the
  fields outside the five, leaves the entry as it is when no update names \<open>k\<close>, keeps an
  optional field that every update naming \<open>k\<close> omits, and never empties an optional field.
\<close>

definition update_frame_for ::
  "QueueUpdate list \<Rightarrow> string \<Rightarrow> CveQueueEntry \<Rightarrow> CveQueueEntry \<Rightarrow> bool" where
  "update_frame_for us k e e' \<longleftrightarrow>
     same_outside_resolution e e'
     \<and> (k \<notin> ukey ` set us \<longrightarrow> e' = e)
     \<and> ((\<forall>u\<in>set us. ukey u = k \<longrightarrow> u_prNumber u = None) \<longrightarrow> prNumber e' = prNumber e)
     \<and> ((\<forall>u\<in>set us. ukey u = k \<longrightarrow> u_prUrl u = None) \<longrightarrow> prUrl e' = prUrl e)
     \<and> ((\<forall>u\<in>set us. ukey u = k \<longrightarrow> u_skipReason u = None) \<longrightarrow> skipReason e' = skipReason e)
     \<and> (prNumber e \<noteq> None \<longrightarrow> prNumber e' \<noteq> None)
     \<and> (prUrl e \<noteq> None \<longrightarrow> prUrl e' \<noteq> None)
     \<and> (skipReason e \<noteq> None \<longrightarrow> skipReason e' \<noteq> None)"

definition upd_opened :: CveQueueEntry where
  "upd_opened = (sample_entry ''CVE-2024-1'' ''a/b'' HIGH (Some 7) ''2.0.0'' St_pr_opened)
     \<lparr>prNumber := Some 12, prUrl := Some ''https://example.org/pr/12''\<rparr>"

definition upd_batch :: "QueueUpdate list" where
  "upd_batch =
     [\<lparr>u_id = ''CVE-2024-1'', u_repo = ''a/b'', u_status = St_skipped, u_prNumber = None,
       u_prUrl = None, u_skipReason = Some ''superseded''\<rparr>,
      \<lparr>u_id = ''CVE-2024-7'', u_repo = ''a/b'', u_status = St_error, u_prNumber = None,
       u_prUrl = None, u_skipReason = None\<rparr>]"

text \<open>
  Sample data for \<open>compact\<close>: timestamps are written \<^verbatim>\<open>d0\<close>, \<^verbatim>\<open>d60\<close>, \<^verbatim>\<open>d90\<close> for the
  start of day 0, 60 and 90; the clock reads day 100, so with a window of 30 days the
  cutoff is day 70.
\<close>

definition sample_getTime :: "string \<Rightarrow> int option" where
  "sample_getTime ts =
     (if ts = ''d0'' then Some 0
      else if ts = ''d60'' then Some (60 * 86400000)
      else if ts = ''d90'' then Some (90 * 86400000)
      else None)"

definition cmp_resolved :: CveQueueEntry where
  "cmp_resolved = (sample_entry ''CVE-2024-1'' ''a/b'' HIGH (Some 7) ''2.0.0'' St_pr_opened)
     \<lparr>detectedAt := ''d0'', processedAt := Some ''d60''\<rparr>"

definition cmp_recent :: CveQueueEntry where
  "cmp_recent = (sample_entry ''CVE-2024-3'' ''a/b'' HIGH (Some 7) ''2.0.0'' St_skipped)
     \<lparr>detectedAt := ''d0'', processedAt := Some ''d90''\<rparr>"

definition cmp_pending :: CveQueueEntry where
  "cmp_pending = (sample_entry ''CVE-2024-2'' ''a/b'' HIGH (Some 7) ''2.0.0'' St_pending)
     \<lparr>detectedAt := ''d0''\<rparr>"

text \<open>A pending entry the advisory source gave no usable severity for.\<close>

definition unranked_pending :: CveQueueEntry where
  "unranked_pending = sample_entry ''GHSA-aaaa-bbbb-cccc'' ''a/b'' UNKNOWN None ''2.0.0'' St_pending"

section \<open>Action layer (layers/action.ts)\<close>

subsection \<open>Promises, the code-host capability, the platform\<close>

text \<open>
  An awaited call either yields a value or rejects, and a synchronous call either returns
  or throws. What is thrown can be any JavaScript value. The code only ever reads its
  \<^verbatim>\<open>message\<close>, so three kinds are told apart: an object with a message (every \<^verbatim>\<open>Error\<close>);
  \<^verbatim>\<open>null\<close> or \<^verbatim>\<open>undefined\<close>, on which reading \<^verbatim>\<open>message\<close> itself throws a \<^verbatim>\<open>TypeError\<close>;
  any other value, whose \<^verbatim>\<open>message\<close> reads as \<^verbatim>\<open>undefined\<close>. A call may change the world
  outside (the code host), whose state \<open>'w\<close> is passed along. \<open>Inl t\<close> is the rejection
  with the value \<open>t\<close>.
\<close>

datatype thrown = Thrown_Error string | Thrown_nullish | Thrown_other

type_synonym ('a, 'w) io = "'w \<Rightarrow> (thrown + 'a) \<times> 'w"

definition io_return :: "'a \<Rightarrow> ('a, 'w) io" where
  "io_return x w = (Inr x, w)"

definition io_bind :: "('a, 'w) io \<Rightarrow> ('a \<Rightarrow> ('b, 'w) io) \<Rightarrow> ('b, 'w) io" where
  "io_bind m f w = (case m w of (Inl err, w') \<Rightarrow> (Inl err, w') | (Inr x, w') \<Rightarrow> f x w')"

text \<open>A computation that has its outcome already, run at this point of the sequence.\<close>

definition io_lift :: "thrown + 'a \<Rightarrow> ('a, 'w) io" where
  "io_lift r w = (r, w)"

text \<open>
  A synchronous call into the platform that may throw one of the platform's own errors
  (\<^verbatim>\<open>SyntaxError\<close>, \<^verbatim>\<open>RangeError\<close>), given by its message.
\<close>

definition io_try :: "string + 'a \<Rightarrow> ('a, 'w) io" where
  "io_try r w = (case r of Inl msg \<Rightarrow> (Inl (Thrown_Error msg), w) | Inr x \<Rightarrow> (Inr x, w))"

record FileChange =
  fc_path :: string
  fc_content :: string

record CommitOpts =
  c_branch :: string
  c_message :: string
  c_files :: "FileChange list"

record PullRequestOpts =
  pr_title :: string
  pr_body :: string
  pr_head :: string
  pr_base :: string
  pr_draft :: bool
  pr_labels :: "string list"

text \<open>
  \<^verbatim>\<open>GitHubAdapter\<close>. Owner and repository name come from destructuring
  \<^verbatim>\<open>repo.split("/")\<close>, so either may be \<^verbatim>\<open>undefined\<close>.
\<close>

record 'w GitHubAdapter =
  token :: string
  getFileContent :: "string option \<Rightarrow> string option \<Rightarrow> string \<Rightarrow> (string option, 'w) io"
  createBranch :: "string option \<Rightarrow> string option \<Rightarrow> string \<Rightarrow> string \<Rightarrow> (unit, 'w) io"
  commitFiles :: "string option \<Rightarrow> string option \<Rightarrow> CommitOpts \<Rightarrow> (string \<times> string, 'w) io"
  createPullRequest ::
    "string option \<Rightarrow> string option \<Rightarrow> PullRequestOpts \<Rightarrow> (int \<times> string, 'w) io"
  getDefaultBranch :: "string option \<Rightarrow> string option \<Rightarrow> (string, 'w) io"

text \<open>
  What the layer takes from the JavaScript platform rather than from this repository:
  \<^item> \<open>npm_bump content pkg version\<close>: \<^verbatim>\<open>updateNpmManifest\<close>, which is \<^verbatim>\<open>JSON.parse\<close>, three
    assignments and \<^verbatim>\<open>JSON.stringify\<close>; \<^verbatim>\<open>JSON.parse\<close> throws on text that is not JSON;
  \<^item> \<open>pip_bump content pkg version\<close>: \<^verbatim>\<open>updatePipManifest\<close>, a regular-expression
    replacement line by line, which does not throw;
  \<^item> \<open>iso_day ts\<close>: \<^verbatim>\<open>new Date(ts).toISOString().slice(0, 10)\<close>, which throws a
    \<^verbatim>\<open>RangeError\<close> on an invalid date;
  \<^item> \<open>body_text entry day\<close>: the text of the template literal of \<^verbatim>\<open>buildPrBody\<close>.
\<close>

record Platform =
  npm_bump :: "string \<Rightarrow> string \<Rightarrow> string \<Rightarrow> string + string"
  pip_bump :: "string \<Rightarrow> string \<Rightarrow> string \<Rightarrow> string"
  iso_day :: "string \<Rightarrow> string + string"
  body_text :: "CveQueueEntry \<Rightarrow> string \<Rightarrow> string"

subsection \<open>Strings\<close>

text \<open>\<^verbatim>\<open>s.split(c)\<close> for a one-character separator, and the \<open>i\<close>-th piece or \<^verbatim>\<open>undefined\<close>.\<close>

fun split_on :: "char \<Rightarrow> string \<Rightarrow> string list" where
  "split_on c [] = [[]]"
| "split_on c (x # xs) =
     (if x = c then [] # split_on c xs
      else (case split_on c xs of [] \<Rightarrow> [[x]] | p # ps \<Rightarrow> (x # p) # ps))"

definition nth_opt :: "'a list \<Rightarrow> nat \<Rightarrow> 'a option" where
  "nth_opt xs i = (if i < length xs then Some (xs ! i) else None)"

text \<open>\<^verbatim>\<open>toLowerCase\<close> and \<^verbatim>\<open>toUpperCase\<close>, on the letters A to Z.\<close>

definition lower_char :: "char \<Rightarrow> char" where
  "lower_char c =
     (case map_of (zip ''ABCDEFGHIJKLMNOPQRSTUVWXYZ'' ''abcdefghijklmnopqrstuvwxyz'') c of
        None \<Rightarrow> c | Some l \<Rightarrow> l)"

definition upper_char :: "char \<Rightarrow> char" where
  "upper_char c =
     (case map_of (zip ''abcdefghijklmnopqrstuvwxyz'' ''ABCDEFGHIJKLMNOPQRSTUVWXYZ'') c of
        None \<Rightarrow> c | Some u \<Rightarrow> u)"

definition toLowerCase :: "string \<Rightarrow> string" where
  "toLowerCase s = map lower_char s"

definition toUpperCase :: "string \<Rightarrow> string" where
  "toUpperCase s = map upper_char s"

definition en_dash :: string where
  "en_dash = [CHR 0xE2, CHR 0x80, CHR 0x93]"

subsection \<open>Pull-request text, labels, manifest update\<close>

definition buildPrBody :: "Platform \<Rightarrow> CveQueueEntry \<Rightarrow> string + string" where
  "buildPrBody plat e =
     (case iso_day plat (detectedAt e) of
        Inl err \<Rightarrow> Inl err
      | Inr day \<Rightarrow> Inr (body_text plat e day))"

definition prLabels :: "Severity \<Rightarrow> bool \<Rightarrow> string list" where
  "prLabels sev draft =
     [''security'', ''cve'', ''git-fabric'']
     @ (case sev of
          CRITICAL \<Rightarrow> [''severity:critical'', ''priority:urgent'']
        | HIGH \<Rightarrow> [''severity:high'', ''priority:high'']
        | MEDIUM \<Rightarrow> [''severity:medium'']
        | LOW \<Rightarrow> [''severity:low'']
        | _ \<Rightarrow> [])
     @ (if draft then [''draft''] else [])"

text \<open>\<open>None\<close> is \<^verbatim>\<open>null\<close>: no automated update for the ecosystem.\<close>

definition updateManifest ::
  "Platform \<Rightarrow> string \<Rightarrow> string \<Rightarrow> string \<Rightarrow> string \<Rightarrow> string + string option" where
  "updateManifest plat content eco pkg version =
     (if eco = ''npm'' then map_sum id Some (npm_bump plat content pkg version)
      else if eco = ''pip'' then Inr (Some (pip_bump plat content pkg version))
      else Inr None)"

definition ECOSYSTEM_MANIFEST :: "(string \<times> string) list" where
  "ECOSYSTEM_MANIFEST =
     [(''npm'', ''package.json''), (''pip'', ''requirements.txt''), (''go'', ''go.mod''),
      (''cargo'', ''Cargo.toml''), (''maven'', ''pom.xml''), (''composer'', ''composer.json'')]"

subsection \<open>execute\<close>

datatype ResultAction = Res_pr_opened | Res_skipped | Res_error

record PrResult =
  cveId :: string
  r_repo :: string
  r_action :: ResultAction
  r_prNumber :: "int option"
  r_prUrl :: "string option"
  r_reason :: "string option"

text \<open>
  The files to commit: the manifest of the ecosystem with the dependency raised, when the
  ecosystem has a manifest, the patched version is known, the manifest is there and the
  update changes it.
\<close>

definition stage_files ::
  "Platform \<Rightarrow> 'w GitHubAdapter \<Rightarrow> string option \<Rightarrow> string option \<Rightarrow> CveQueueEntry
     \<Rightarrow> (FileChange list, 'w) io" where
  "stage_files plat github owner rp e =
     (case map_of ECOSYSTEM_MANIFEST (ecosystem e) of
        None \<Rightarrow> io_return []
      | Some manifestPath \<Rightarrow>
          if patchedVersion e = ''unknown'' then io_return []
          else
            io_bind (getFileContent github owner rp manifestPath) (\<lambda>currentContent.
              case currentContent of
                None \<Rightarrow> io_return []
              | Some content \<Rightarrow>
                  if content = [] then io_return []
                  else
                    io_bind (io_try (updateManifest plat content (ecosystem e)
                                       (affectedPackage e) (patchedVersion e))) (\<lambda>updated.
                      case updated of
                        None \<Rightarrow> io_return []
                      | Some u \<Rightarrow>
                          if u \<noteq> [] \<and> u \<noteq> content
                          then io_return [\<lparr>fc_path = manifestPath, fc_content = u\<rparr>]
                          else io_return [])))"

text \<open>The body of the \<^verbatim>\<open>try\<close> block for one acting plan: branch, commit, pull request.\<close>

definition try_block ::
  "Platform \<Rightarrow> 'w GitHubAdapter \<Rightarrow> TriagePlan \<Rightarrow> (int \<times> string, 'w) io" where
  "try_block plat github plan =
     (let e = entry plan;
          parts = split_on CHR ''/'' (repo e);
          owner = nth_opt parts 0;
          rp = nth_opt parts 1;
          branch = ''security/'' @ toLowerCase (entry_id e);
          isDraft = (action plan = open_draft);
          title = ''fix(security): '' @ entry_id e @ '' '' @ en_dash @ '' ''
                    @ show_Severity (severity e) @ '' in '' @ affectedPackage e
      in
        io_bind (getDefaultBranch github owner rp) (\<lambda>base.
        io_bind (createBranch github owner rp branch base) (\<lambda>_.
        io_bind (stage_files plat github owner rp e) (\<lambda>files.
        io_bind (if files \<noteq> []
                 then io_bind (commitFiles github owner rp
                        \<lparr>c_branch = branch,
                         c_message = ''fix(security): upgrade '' @ affectedPackage e @ '' to ''
                           @ patchedVersion e @ [CHR 0x0A, CHR 0x0A] @ ''Resolves '' @ entry_id e,
                         c_files = files\<rparr>) (\<lambda>_. io_return ())
                 else io_return ()) (\<lambda>_.
        io_bind (io_try (buildPrBody plat e)) (\<lambda>body.
        createPullRequest github owner rp
          \<lparr>pr_title = title, pr_body = body, pr_head = branch, pr_base = base,
           pr_draft = isDraft, pr_labels = prLabels (severity e) isDraft\<rparr>))))))"

definition skipped_result :: "TriagePlan \<Rightarrow> PrResult" where
  "skipped_result plan =
     \<lparr>cveId = entry_id (entry plan), r_repo = repo (entry plan), r_action = Res_skipped,
      r_prNumber = None, r_prUrl = None, r_reason = Some (reason plan)\<rparr>"

definition dry_run_result :: "TriagePlan \<Rightarrow> PrResult" where
  "dry_run_result plan =
     \<lparr>cveId = entry_id (entry plan), r_repo = repo (entry plan), r_action = Res_pr_opened,
      r_prNumber = None, r_prUrl = None,
      r_reason = Some (''[DRY RUN] Would open ''
                   @ (if action plan = open_draft then ''draft '' else []) @ ''PR'')\<rparr>"

definition opened_result :: "TriagePlan \<Rightarrow> int \<times> string \<Rightarrow> PrResult" where
  "opened_result plan pr =
     \<lparr>cveId = entry_id (entry plan), r_repo = repo (entry plan), r_action = Res_pr_opened,
      r_prNumber = Some (fst pr), r_prUrl = Some (snd pr), r_reason = None\<rparr>"

text \<open>The result pushed by the \<^verbatim>\<open>catch\<close> clause; its reason is what \<^verbatim>\<open>message\<close> read.\<close>

definition error_result :: "TriagePlan \<Rightarrow> string option \<Rightarrow> PrResult" where
  "error_result plan msg =
     \<lparr>cveId = entry_id (entry plan), r_repo = repo (entry plan), r_action = Res_error,
      r_prNumber = None, r_prUrl = None, r_reason = msg\<rparr>"

definition TypeError_message :: string where
  "TypeError_message = ''Cannot read properties of null or undefined''"

text \<open>
  The \<^verbatim>\<open>catch\<close> clause evaluates \<^verbatim>\<open>(err as Error).message\<close>; the cast checks nothing. On an
  object with a message the clause pushes the error result with that message, on another
  value the error result with no reason. On \<^verbatim>\<open>null\<close> or \<^verbatim>\<open>undefined\<close> the property access
  throws a \<^verbatim>\<open>TypeError\<close> inside the clause: nothing is pushed and \<open>execute\<close> itself rejects.
\<close>

definition catch_clause :: "TriagePlan \<Rightarrow> thrown \<Rightarrow> thrown + PrResult" where
  "catch_clause plan err =
     (case err of
        Thrown_Error msg \<Rightarrow> Inr (error_result plan (Some msg))
      | Thrown_other \<Rightarrow> Inr (error_result plan None)
      | Thrown_nullish \<Rightarrow> Inl (Thrown_Error TypeError_message))"

text \<open>
  The loop of \<open>execute\<close>; \<open>results\<close> is the array being filled. A rejection anywhere in the
  \<^verbatim>\<open>try\<close> block goes to the \<^verbatim>\<open>catch\<close> clause; when the clause pushes its result the loop
  goes on with the next plan, and when the clause throws, \<open>execute\<close> ends there.
\<close>

fun execute_loop ::
  "Platform \<Rightarrow> 'w GitHubAdapter \<Rightarrow> bool \<Rightarrow> PrResult list \<Rightarrow> TriagePlan list
     \<Rightarrow> (PrResult list, 'w) io" where
  "execute_loop plat github dryRun results [] w = (Inr results, w)"
| "execute_loop plat github dryRun results (plan # rest) w =
     (if action plan = skip
      then execute_loop plat github dryRun (results @ [skipped_result plan]) rest w
      else if dryRun
      then execute_loop plat github dryRun (results @ [dry_run_result plan]) rest w
      else
        (case try_block plat github plan w of
           (Inr pr, w') \<Rightarrow>
             execute_loop plat github dryRun (results @ [opened_result plan pr]) rest w'
         | (Inl err, w') \<Rightarrow>
             (case catch_clause plan err of
                Inr r \<Rightarrow> execute_loop plat github dryRun (results @ [r]) rest w'
              | Inl t \<Rightarrow> (Inl t, w'))))"

definition execute ::
  "Platform \<Rightarrow> TriagePlan list \<Rightarrow> 'w GitHubAdapter \<Rightarrow> bool \<Rightarrow> (PrResult list, 'w) io" where
  "execute plat plans github dryRun w = execute_loop plat github dryRun [] plans w"

text \<open>
  One turn of the loop of \<open>execute\<close>: the result pushed (or the rejection that ends the
  loop) and the state left.
\<close>

definition run_plan ::
  "Platform \<Rightarrow> 'w GitHubAdapter \<Rightarrow> bool \<Rightarrow> TriagePlan \<Rightarrow> (PrResult, 'w) io" where
  "run_plan plat github dryRun plan w =
     (if action plan = skip then (Inr (skipped_result plan), w)
      else if dryRun then (Inr (dry_run_result plan), w)
      else (case try_block plat github plan w of
              (Inr pr, w') \<Rightarrow> (Inr (opened_result plan pr), w')
            | (Inl err, w') \<Rightarrow> (catch_clause plan err, w')))"


text \<open>
  Sample code host: the state counts the pull requests opened; the branch for CVE-2024-1
  exists already, so creating it is refused.
\<close>

definition sample_github :: "nat GitHubAdapter" where
  "sample_github =
     \<lparr>token = ''t'',
      getFileContent = (\<lambda>owner rp path. io_return None),
      createBranch = (\<lambda>owner rp branch base.
        if branch = ''security/cve-2024-1''
        then io_lift (Inl (Thrown_Error ''Reference already exists''))
        else io_return ()),
      commitFiles = (\<lambda>owner rp opts. io_return (''sha'', ''url'')),
      createPullRequest = (\<lambda>owner rp opts w. (Inr (int w + 1, ''https://example.org/pr''), w + 1)),
      getDefaultBranch = (\<lambda>owner rp. io_return ''main'')\<rparr>"



section \<open>Detection layer (layers/detection.ts)\<close>

record GhsaAdvisory =
  a_ghsaId :: string
  a_cveId :: "string option"
  a_summary :: string
  a_severity :: string
  a_cvssScore :: "rat option"
  a_package :: "string \<times> string"
  a_vulnerableVersionRange :: string
  a_firstPatchedVersion :: "string option"

definition normalizeSeverity :: "string \<Rightarrow> Severity" where
  "normalizeSeverity s =
     (let upper = toUpperCase s
      in if upper = ''CRITICAL'' then CRITICAL
         else if upper = ''HIGH'' then HIGH
         else if upper = ''MEDIUM'' then MEDIUM
         else if upper = ''LOW'' then LOW
         else if upper = ''NONE'' then NONE
         else UNKNOWN)"

record ManifestFile =
  m_path :: string
  m_ecosystem :: string
  m_content :: string

text \<open>
  The four manifest parsers rest on \<^verbatim>\<open>JSON.parse\<close> and on regular expressions; each maps
  a text to the entries of an object, package name to version, in the order
  \<^verbatim>\<open>Object.entries\<close> lists them, and none throws. They are parameters here.
\<close>

record Parsers =
  parseNpm :: "string \<Rightarrow> (string \<times> string) list"
  parsePip :: "string \<Rightarrow> (string \<times> string) list"
  parseGo :: "string \<Rightarrow> (string \<times> string) list"
  parseCargo :: "string \<Rightarrow> (string \<times> string) list"

definition parseManifest :: "Parsers \<Rightarrow> ManifestFile \<Rightarrow> (string \<times> string) list" where
  "parseManifest ps manifest =
     (if m_ecosystem manifest = ''npm'' then parseNpm ps (m_content manifest)
      else if m_ecosystem manifest = ''pip'' then parsePip ps (m_content manifest)
      else if m_ecosystem manifest = ''go'' then parseGo ps (m_content manifest)
      else if m_ecosystem manifest = ''cargo'' then parseCargo ps (m_content manifest)
      else [])"

definition ECOSYSTEM_MAP :: "(string \<times> string) list" where
  "ECOSYSTEM_MAP =
     [(''npm'', ''NPM''), (''pip'', ''PIP''), (''go'', ''GO''), (''maven'', ''MAVEN''),
      (''cargo'', ''RUST''), (''composer'', ''COMPOSER'')]"

text \<open>
  The reply to the GraphQL request: \<^verbatim>\<open>res.ok\<close>, and what \<^verbatim>\<open>await res.json()\<close> gives followed
  by the reading of the nodes, which rejects when the body is not JSON. The request
  itself, \<^verbatim>\<open>await fetch(...)\<close>, rejects when the network fails; it is the parameter
  \<open>fetch\<close> below, given the ecosystem variable, the package name and the token.
\<close>

record Response =
  ok :: bool
  json_nodes :: "string + GhsaAdvisory list"

type_synonym 'w fetch = "string \<Rightarrow> string \<Rightarrow> string \<Rightarrow> (Response, 'w) io"

definition queryGhsa :: "'w fetch \<Rightarrow> string \<Rightarrow> string \<Rightarrow> string \<Rightarrow> (GhsaAdvisory list, 'w) io" where
  "queryGhsa fetch eco packageName tok =
     io_bind (fetch (case map_of ECOSYSTEM_MAP eco of None \<Rightarrow> toUpperCase eco | Some v \<Rightarrow> v)
                packageName tok) (\<lambda>res.
       if \<not> ok res then io_return []
       else io_try (json_nodes res))"

definition MANIFEST_PATHS :: "(string \<times> string) list" where
  "MANIFEST_PATHS =
     [(''package.json'', ''npm''), (''requirements.txt'', ''pip''), (''go.mod'', ''go''),
      (''Cargo.toml'', ''cargo''), (''pom.xml'', ''maven''), (''composer.json'', ''composer'')]"

record DetectionResult =
  reposScanned :: nat
  findings :: "CveQueueEntry list"
  bySeverity :: "(Severity \<times> nat) list"

text \<open>\<^verbatim>\<open>adv.cveId ?? adv.ghsaId\<close>\<close>

definition advisory_id :: "GhsaAdvisory \<Rightarrow> string" where
  "advisory_id adv = (case a_cveId adv of None \<Rightarrow> a_ghsaId adv | Some c \<Rightarrow> c)"

text \<open>
  The loop over the advisories of one package; the state is the set \<open>seen\<close> and the array
  \<open>allFindings\<close>. \<open>now\<close> is \<^verbatim>\<open>new Date().toISOString()\<close>.
\<close>

fun advisories_loop ::
  "string \<Rightarrow> int \<Rightarrow> string \<Rightarrow> string \<Rightarrow> string \<Rightarrow> string
     \<Rightarrow> string list \<times> CveQueueEntry list \<Rightarrow> GhsaAdvisory list
     \<Rightarrow> string list \<times> CveQueueEntry list" where
  "advisories_loop now thresholdIdx repoFull eco pkgName pkgVersion (seen, allFindings) [] =
     (seen, allFindings)"
| "advisories_loop now thresholdIdx repoFull eco pkgName pkgVersion (seen, allFindings)
     (adv # advs) =
     (let sev = normalizeSeverity (a_severity adv);
          dedupeKey = key_of (advisory_id adv) repoFull
      in if indexOf SEVERITY_ORDER sev > thresholdIdx
         then advisories_loop now thresholdIdx repoFull eco pkgName pkgVersion
                (seen, allFindings) advs
         else if dedupeKey \<in> set seen
         then advisories_loop now thresholdIdx repoFull eco pkgName pkgVersion
                (seen, allFindings) advs
         else advisories_loop now thresholdIdx repoFull eco pkgName pkgVersion
                (seen @ [dedupeKey],
                 allFindings @
                 [\<lparr>entry_id = advisory_id adv, ghsaId = Some (a_ghsaId adv), repo = repoFull,
                   ecosystem = eco, affectedPackage = pkgName, affectedVersion = pkgVersion,
                   patchedVersion = (case a_firstPatchedVersion adv of None \<Rightarrow> ''unknown''
                                     | Some v \<Rightarrow> v),
                   severity = sev, cvssScore = a_cvssScore adv, summary = a_summary adv,
                   nvdUrl = (case a_cveId adv of
                               None \<Rightarrow> ''https://github.com/advisories/'' @ a_ghsaId adv
                             | Some c \<Rightarrow> if c = [] then ''https://github.com/advisories/''
                                                          @ a_ghsaId adv
                                        else ''https://nvd.nist.gov/vuln/detail/'' @ c),
                   detectedAt = now, status = St_pending, prNumber = None, prUrl = None,
                   processedAt = None, skipReason = None\<rparr>]) advs)"

text \<open>
  The loop over the packages of one manifest. Nothing around the query catches a
  rejection: when \<open>queryGhsa\<close> rejects, the loop ends there with that rejection.
\<close>

fun deps_loop ::
  "'w fetch \<Rightarrow> string \<Rightarrow> string \<Rightarrow> int \<Rightarrow> string \<Rightarrow> string
     \<Rightarrow> string list \<times> CveQueueEntry list \<Rightarrow> (string \<times> string) list
     \<Rightarrow> (string list \<times> CveQueueEntry list, 'w) io" where
  "deps_loop fetch tok now thresholdIdx repoFull eco st [] w = io_return st w"
| "deps_loop fetch tok now thresholdIdx repoFull eco st ((pkgName, pkgVersion) # deps) w =
     (if pkgName = [] \<or> take 2 pkgName = ''//''
      then deps_loop fetch tok now thresholdIdx repoFull eco st deps w
      else
        io_bind (queryGhsa fetch eco pkgName tok) (\<lambda>advisories.
          deps_loop fetch tok now thresholdIdx repoFull eco
            (advisories_loop now thresholdIdx repoFull eco pkgName pkgVersion st advisories)
            deps) w)"

fun manifests_loop ::
  "Parsers \<Rightarrow> 'w fetch \<Rightarrow> string \<Rightarrow> string \<Rightarrow> int \<Rightarrow> string
     \<Rightarrow> string list \<times> CveQueueEntry list \<Rightarrow> ManifestFile list
     \<Rightarrow> (string list \<times> CveQueueEntry list, 'w) io" where
  "manifests_loop ps fetch tok now thresholdIdx repoFull st [] w = io_return st w"
| "manifests_loop ps fetch tok now thresholdIdx repoFull st (manifest # manifests) w =
     io_bind (deps_loop fetch tok now thresholdIdx repoFull (m_ecosystem manifest) st
                (parseManifest ps manifest)) (\<lambda>st'.
       manifests_loop ps fetch tok now thresholdIdx repoFull st' manifests) w"

text \<open>The manifests of one repository: every path of the table whose content is there.\<close>

fun read_manifests ::
  "'w GitHubAdapter \<Rightarrow> string option \<Rightarrow> string option \<Rightarrow> ManifestFile list
     \<Rightarrow> (string \<times> string) list \<Rightarrow> (ManifestFile list, 'w) io" where
  "read_manifests github owner rp manifests [] w = io_return manifests w"
| "read_manifests github owner rp manifests ((path, eco) # paths) w =
     io_bind (getFileContent github owner rp path) (\<lambda>content.
       case content of
         None \<Rightarrow> read_manifests github owner rp manifests paths
       | Some c \<Rightarrow>
           if c = [] then read_manifests github owner rp manifests paths
           else read_manifests github owner rp
                  (manifests @ [\<lparr>m_path = path, m_ecosystem = eco, m_content = c\<rparr>]) paths) w"

fun repos_loop ::
  "Parsers \<Rightarrow> 'w fetch \<Rightarrow> 'w GitHubAdapter \<Rightarrow> string \<Rightarrow> int
     \<Rightarrow> string list \<times> CveQueueEntry list \<Rightarrow> string list
     \<Rightarrow> (string list \<times> CveQueueEntry list, 'w) io" where
  "repos_loop ps fetch github now thresholdIdx st [] w = io_return st w"
| "repos_loop ps fetch github now thresholdIdx st (repoFull # repos) w =
     (let parts = split_on CHR ''/'' repoFull;
          owner = nth_opt parts 0;
          rp = nth_opt parts 1
      in io_bind (read_manifests github owner rp [] MANIFEST_PATHS) (\<lambda>manifests.
           if manifests = [] then repos_loop ps fetch github now thresholdIdx st repos
           else
             io_bind (manifests_loop ps fetch (token github) now thresholdIdx repoFull st
                        manifests) (\<lambda>st'.
               repos_loop ps fetch github now thresholdIdx st' repos)) w)"

definition detect ::
  "Parsers \<Rightarrow> 'w fetch \<Rightarrow> string \<Rightarrow> string list \<Rightarrow> Severity \<Rightarrow> 'w GitHubAdapter
     \<Rightarrow> (DetectionResult, 'w) io" where
  "detect ps fetch now repos severityThreshold github =
     io_bind (repos_loop ps fetch github now (indexOf SEVERITY_ORDER severityThreshold)
                ([], []) repos) (\<lambda>st.
       io_return
         \<lparr>reposScanned = length repos, findings = snd st,
          bySeverity = map (\<lambda>s. (s, length (filter (\<lambda>f. severity f = s) (snd st))))
                         SEVERITY_ORDER\<rparr>)"

text \<open>
  Sample data for \<open>detect\<close>: every repository has a \<^verbatim>\<open>package.json\<close> with the packages
  lodash and express; express has one critical advisory. In \<open>fetch_down\<close> the request for
  lodash fails on the network (the promise rejects); in \<open>fetch_refused\<close> the server answers
  it with an error status.
\<close>

definition detect_github :: "nat GitHubAdapter" where
  "detect_github = sample_github
     \<lparr>getFileContent := (\<lambda>owner rp path.
        io_return (if path = ''package.json'' then Some ''manifest'' else None))\<rparr>"

definition sample_parsers :: Parsers where
  "sample_parsers =
     \<lparr>parseNpm = (\<lambda>content. [(''lodash'', ''1.0.0''), (''express'', ''4.0.0'')]),
      parsePip = (\<lambda>content. []), parseGo = (\<lambda>content. []), parseCargo = (\<lambda>content. [])\<rparr>"

definition express_advisory :: GhsaAdvisory where
  "express_advisory =
     \<lparr>a_ghsaId = ''GHSA-aaaa-bbbb-cccc'', a_cveId = Some ''CVE-2024-5'', a_summary = ''s'',
      a_severity = ''critical'', a_cvssScore = Some 9, a_package = (''NPM'', ''express''),
      a_vulnerableVersionRange = ''< 4.1.0'', a_firstPatchedVersion = Some ''4.1.0''\<rparr>"

definition fetch_down :: "nat fetch" where
  "fetch_down eco pkg tok =
     (if pkg = ''lodash'' then io_lift (Inl (Thrown_Error ''fetch failed''))
      else io_return \<lparr>ok = True, json_nodes = Inr [express_advisory]\<rparr>)"

definition fetch_refused :: "nat fetch" where
  "fetch_refused eco pkg tok =
     (if pkg = ''lodash'' then io_return \<lparr>ok = False, json_nodes = Inl ''Unexpected token''\<rparr>
      else io_return \<lparr>ok = True, json_nodes = Inr [express_advisory]\<rparr>)"

section \<open>Severity: facts\<close>

lemma indexOf_SEVERITY_ORDER:
  "indexOf SEVERITY_ORDER CRITICAL = 0"
  "indexOf SEVERITY_ORDER HIGH = 1"
  "indexOf SEVERITY_ORDER MEDIUM = 2"
  "indexOf SEVERITY_ORDER LOW = 3"
  "indexOf SEVERITY_ORDER NONE = 4"
  "indexOf SEVERITY_ORDER UNKNOWN = 5"
  by (simp_all add: indexOf_def SEVERITY_ORDER_def)

lemma more_severe_index:
  "more_severe s t \<Longrightarrow> indexOf SEVERITY_ORDER s < indexOf SEVERITY_ORDER t"
  by (induction rule: more_severe.induct) (simp_all add: indexOf_SEVERITY_ORDER)

lemma more_severe_from_LOW:
  "more_severe LOW NONE" "more_severe LOW UNKNOWN"
  using low_none chain [OF low_none none_unknown] by simp_all

lemma more_severe_from_MEDIUM:
  "more_severe MEDIUM LOW" "more_severe MEDIUM NONE" "more_severe MEDIUM UNKNOWN"
  using med_low more_severe_from_LOW [THEN chain [OF med_low]] by simp_all

lemma more_severe_from_HIGH:
  "more_severe HIGH MEDIUM" "more_severe HIGH LOW" "more_severe HIGH NONE"
  "more_severe HIGH UNKNOWN"
  using high_med more_severe_from_MEDIUM [THEN chain [OF high_med]] by simp_all

lemma more_severe_from_CRITICAL:
  "more_severe CRITICAL HIGH" "more_severe CRITICAL MEDIUM" "more_severe CRITICAL LOW"
  "more_severe CRITICAL NONE" "more_severe CRITICAL UNKNOWN"
  using crit_high more_severe_from_HIGH [THEN chain [OF crit_high]] by simp_all

lemma index_more_severe:
  assumes "indexOf SEVERITY_ORDER s < indexOf SEVERITY_ORDER t"
  shows "more_severe s t"
  using assms
  by (cases s; cases t)
     (simp_all add: indexOf_SEVERITY_ORDER more_severe_from_CRITICAL more_severe_from_HIGH
        more_severe_from_MEDIUM more_severe_from_LOW none_unknown)

lemma index_inj:
  "indexOf SEVERITY_ORDER s = indexOf SEVERITY_ORDER t \<Longrightarrow> s = t"
  by (cases s; cases t) (simp_all add: indexOf_SEVERITY_ORDER)

text \<open>
  C8. For each of the 36 pairs of severities, \<open>meetsThreshold s t\<close> is true exactly
  when \<open>s\<close> is at least as severe as \<open>t\<close> in the order
  CRITICAL > HIGH > MEDIUM > LOW > NONE > UNKNOWN.
\<close>

theorem meetsThreshold_order:
  "meetsThreshold s t \<longleftrightarrow> at_least_as_severe s t"
proof
  assume "meetsThreshold s t"
  then have "indexOf SEVERITY_ORDER s < indexOf SEVERITY_ORDER t
      \<or> indexOf SEVERITY_ORDER s = indexOf SEVERITY_ORDER t"
    unfolding meetsThreshold_def by linarith
  then show "at_least_as_severe s t"
    unfolding at_least_as_severe_def using index_more_severe index_inj by blast
next
  assume "at_least_as_severe s t"
  then show "meetsThreshold s t"
    unfolding at_least_as_severe_def meetsThreshold_def
    using more_severe_index [of s t] by auto
qed

theorem meetsThreshold_order_witness:
  "meetsThreshold HIGH MEDIUM \<and> at_least_as_severe HIGH MEDIUM
   \<and> \<not> meetsThreshold NONE LOW \<and> \<not> at_least_as_severe NONE LOW"
proof -
  have a: "meetsThreshold HIGH MEDIUM"
    by (simp add: meetsThreshold_def indexOf_SEVERITY_ORDER)
  have b: "\<not> meetsThreshold NONE LOW"
    by (simp add: meetsThreshold_def indexOf_SEVERITY_ORDER)
  show ?thesis
    using a b meetsThreshold_order [of HIGH MEDIUM] meetsThreshold_order [of NONE LOW]
    by simp
qed

section \<open>Decision layer: facts\<close>

lemma mset_insert_cmp: "mset (insert_cmp c x xs) = add_mset x (mset xs)"
  by (induction xs) auto

lemma mset_sort_cmp: "mset (sort_cmp c xs) = mset xs"
  unfolding sort_cmp_def by (induction xs) (auto simp: mset_insert_cmp)

lemma set_insert_cmp: "set (insert_cmp c x xs) = insert x (set xs)"
  by (induction xs) auto

lemma compare_le_0: "compareEntries a b \<le> 0 \<longleftrightarrow> goes_before a b"
proof -
  let ?i = "indexOf SEVERITY_ORDER (severity a)" and ?j = "indexOf SEVERITY_ORDER (severity b)"
  have ms: "more_severe (severity a) (severity b) \<longleftrightarrow> ?i < ?j"
    using more_severe_index index_more_severe by blast
  have eq: "severity a = severity b \<longleftrightarrow> ?i = ?j"
    using index_inj by auto
  show ?thesis
    unfolding compareEntries_def goes_before_def ms eq Let_def
    by (auto simp: of_int_le_0_iff)
qed

lemma goes_before_total: "goes_before a b \<or> goes_before b a"
  unfolding compare_le_0[symmetric] compareEntries_def Let_def by auto

lemma goes_before_trans: "goes_before a b \<Longrightarrow> goes_before b c \<Longrightarrow> goes_before a c"
  unfolding goes_before_def using chain by (metis order_trans)

lemma sorted_insert_cmp:
  "sorted_wrt goes_before xs \<Longrightarrow> sorted_wrt goes_before (insert_cmp compareEntries x xs)"
proof (induction xs)
  case Nil then show ?case by simp
next
  case (Cons y ys)
  show ?case
  proof (cases "compareEntries x y \<le> 0")
    case True
    then have "goes_before x y" by (simp add: compare_le_0)
    with Cons.prems show ?thesis using True goes_before_trans by auto
  next
    case False
    then have "goes_before y x" using goes_before_total compare_le_0 by blast
    with Cons show ?thesis using False by (auto simp: set_insert_cmp)
  qed
qed

lemma sorted_sort_cmp: "sorted_wrt goes_before (sort_cmp compareEntries xs)"
  unfolding sort_cmp_def by (induction xs) (auto intro: sorted_insert_cmp)

lemma triage_loop_all_eligible:
  assumes "\<forall>e\<in>set xs. meetsThreshold (severity e) (autoPrThreshold p) \<and> has_patch p e"
  shows "triage_loop p c xs =
           map acting_plan (take (nat (maxPrsPerRun p - c)) xs)
           @ map (capped_plan p) (drop (nat (maxPrsPerRun p - c)) xs)"
  using assms
proof (induction xs arbitrary: c)
  case Nil
  then show ?case by simp
next
  case (Cons e rest)
  have e: "meetsThreshold (severity e) (autoPrThreshold p)" "has_patch p e"
    using Cons.prems by simp_all
  have IH: "triage_loop p c' rest =
           map acting_plan (take (nat (maxPrsPerRun p - c')) rest)
           @ map (capped_plan p) (drop (nat (maxPrsPerRun p - c')) rest)" for c'
    using Cons.IH Cons.prems by simp
  show ?case
  proof (cases "c \<ge> maxPrsPerRun p")
    case True
    then have "nat (maxPrsPerRun p - c) = 0" by simp
    then show ?thesis using True e IH [of c] by (simp add: capped_plan_def)
  next
    case False
    then have n: "nat (maxPrsPerRun p - c) = Suc (nat (maxPrsPerRun p - (c + 1)))"
      by linarith
    show ?thesis using False e IH [of "c + 1"]
      unfolding n by (simp add: acting_plan_def has_patch_def)
  qed
qed

lemma acting_plan_simps:
  "is_acting (acting_plan e)" "\<not> is_capped p (acting_plan e)" "entry (acting_plan e) = e"
  by (simp_all add: acting_plan_def is_acting_def is_capped_def)

lemma capped_plan_simps:
  "\<not> is_acting (capped_plan p e)" "is_capped p (capped_plan p e)" "entry (capped_plan p e) = e"
  by (simp_all add: capped_plan_def is_acting_def is_capped_def)

lemma filter_map_all: "(\<And>x. P (f x)) \<Longrightarrow> filter P (map f xs) = map f xs"
  by (induction xs) auto

lemma filter_map_none: "(\<And>x. \<not> P (f x)) \<Longrightarrow> filter P (map f xs) = []"
  by (induction xs) auto

text \<open>
  C1. Let all \<open>N\<close> entries be pending, meet the auto-remediation threshold and pass the
  patched-version check, and let \<open>maxPrsPerRun = k < N\<close>. Then \<open>triage\<close> returns \<open>N\<close> plans,
  one per entry; exactly \<open>k\<close> of them act (\<open>open_pr\<close> or \<open>open_draft\<close>) and exactly \<open>N - k\<close>
  are \<open>skip\<close> plans carrying the cap reason; the acting plans are for the first \<open>k\<close> entries
  of the severity order, so each acting entry is at least as severe as each capped one,
  with the higher score winning among equal severities.
\<close>

theorem triage_cap_fairness:
  assumes elig: "\<forall>e\<in>set entries. status e = St_pending
                   \<and> meetsThreshold (severity e) (autoPrThreshold policy) \<and> has_patch policy e"
    and cap: "maxPrsPerRun policy = int k" and less: "k < length entries"
  shows "length (triage entries policy) = length entries
       \<and> length (filter is_acting (triage entries policy)) = k
       \<and> length (filter (is_capped policy) (triage entries policy)) = length entries - k
       \<and> mset (map entry (triage entries policy)) = mset entries
       \<and> map entry (filter is_acting (triage entries policy))
           = take k (sort_cmp compareEntries entries)
       \<and> map entry (filter (is_capped policy) (triage entries policy))
           = drop k (sort_cmp compareEntries entries)
       \<and> (\<forall>a\<in>set (filter is_acting (triage entries policy)).
            \<forall>b\<in>set (filter (is_capped policy) (triage entries policy)).
              goes_before (entry a) (entry b))"
proof -
  let ?sorted = "sort_cmp compareEntries entries"
  let ?plans = "triage entries policy"
  have pend: "filter (\<lambda>e. status e = St_pending) entries = entries"
    using elig by (simp add: filter_id_conv)
  have ms: "mset ?sorted = mset entries" by (rule mset_sort_cmp)
  then have set_sorted: "set ?sorted = set entries" by (rule mset_eq_setD)
  have len_sorted: "length ?sorted = length entries" using ms by (rule mset_eq_length)
  have plans: "?plans = map acting_plan (take k ?sorted) @ map (capped_plan policy) (drop k ?sorted)"
    unfolding triage_def pend
    using triage_loop_all_eligible [of ?sorted policy 0] elig set_sorted cap by simp
  have act: "filter is_acting ?plans = map acting_plan (take k ?sorted)"
    unfolding plans by (simp add: filter_map_all filter_map_none acting_plan_simps capped_plan_simps)
  have capd: "filter (is_capped policy) ?plans = map (capped_plan policy) (drop k ?sorted)"
    unfolding plans by (simp add: filter_map_all filter_map_none acting_plan_simps capped_plan_simps)
  have ent: "map entry ?plans = ?sorted"
    unfolding plans by (simp add: comp_def acting_plan_simps capped_plan_simps flip: take_map drop_map)
  have "sorted_wrt goes_before (take k ?sorted @ drop k ?sorted)"
    using sorted_sort_cmp [of entries] by simp
  then have sep: "\<forall>x\<in>set (take k ?sorted). \<forall>y\<in>set (drop k ?sorted). goes_before x y"
    unfolding sorted_wrt_append by blast
  have c1: "length ?plans = length entries"
    using ent len_sorted by (metis length_map)
  have c2: "length (filter is_acting ?plans) = k"
    unfolding act using less len_sorted by simp
  have c3: "length (filter (is_capped policy) ?plans) = length entries - k"
    unfolding capd using len_sorted by simp
  have c4: "mset (map entry ?plans) = mset entries"
    unfolding ent by (rule ms)
  have c5: "map entry (filter is_acting ?plans) = take k ?sorted"
    unfolding act by (simp add: comp_def acting_plan_simps)
  have c6: "map entry (filter (is_capped policy) ?plans) = drop k ?sorted"
    unfolding capd by (simp add: comp_def capped_plan_simps)
  have c7: "\<forall>a\<in>set (filter is_acting ?plans). \<forall>b\<in>set (filter (is_capped policy) ?plans).
              goes_before (entry a) (entry b)"
    unfolding act capd using sep by (auto simp: acting_plan_simps capped_plan_simps)
  show ?thesis using c1 c2 c3 c4 c5 c6 c7 by blast
qed

theorem triage_cap_fairness_witness:
  "list_all (\<lambda>e. status e = St_pending
       \<and> meetsThreshold (severity e) (autoPrThreshold cap_policy) \<and> has_patch cap_policy e)
     cap_entries
   \<and> maxPrsPerRun cap_policy = int 2 \<and> 2 < length cap_entries
   \<and> length (filter is_acting (triage cap_entries cap_policy)) = 2
   \<and> length (filter (is_capped cap_policy) (triage cap_entries cap_policy)) = 1
   \<and> map entry (filter is_acting (triage cap_entries cap_policy))
        = [cap_entries ! 1, cap_entries ! 2]
   \<and> map entry (filter (is_capped cap_policy) (triage cap_entries cap_policy))
        = [cap_entries ! 0]"
proof -
  have h1: "\<forall>e\<in>set cap_entries. status e = St_pending
       \<and> meetsThreshold (severity e) (autoPrThreshold cap_policy) \<and> has_patch cap_policy e"
    by (simp add: cap_entries_def cap_policy_def DEFAULT_POLICY_def sample_entry_def
        meetsThreshold_def indexOf_SEVERITY_ORDER has_patch_def)
  have h2: "maxPrsPerRun cap_policy = int 2"
    by (simp add: cap_policy_def DEFAULT_POLICY_def)
  have h3: "2 < length cap_entries"
    by (simp add: cap_entries_def)
  have s: "sort_cmp compareEntries cap_entries = [cap_entries ! 1, cap_entries ! 2, cap_entries ! 0]"
    by (simp add: cap_entries_def sort_cmp_def compareEntries_def sample_entry_def
      indexOf_SEVERITY_ORDER score_or_0_def)
  have l: "length cap_entries = 3" by (simp add: cap_entries_def)
  show ?thesis
    using h1 h2 h3 triage_cap_fairness [OF h1 h2 h3] unfolding s l
    by (simp add: list_all_iff)
qed

text \<open>
  The scenario of the specification: six CRITICAL pending entries under the default
  policy (cap 5) give five \<open>open_pr\<close> plans and one \<open>skip\<close>.
\<close>

lemma triage_six_critical:
  "map action (triage (map (\<lambda>i. sample_entry i ''a/b'' CRITICAL None ''2.0.0'' St_pending)
       [''1'', ''2'', ''3'', ''4'', ''5'', ''6'']) DEFAULT_POLICY)
   = [open_pr, open_pr, open_pr, open_pr, open_pr, skip]"
  by (simp add: triage_def sort_cmp_def compareEntries_def sample_entry_def
      indexOf_SEVERITY_ORDER score_or_0_def DEFAULT_POLICY_def meetsThreshold_def)

text \<open>
  The scenarios of the specification for one entry under the default policy: a CRITICAL
  entry with a patched version gets \<open>open_pr\<close>; with the patched version \<^verbatim>\<open>unknown\<close> it is
  skipped for want of a patch.
\<close>

lemma triage_critical_default:
  "map action (triage [sample_entry ''CVE-2024-1'' ''a/b'' CRITICAL None ''2.0.0'' St_pending]
     DEFAULT_POLICY) = [open_pr]"
  by (simp add: triage_def sort_cmp_def sample_entry_def DEFAULT_POLICY_def meetsThreshold_def
      indexOf_SEVERITY_ORDER)

lemma triage_unknown_patch_default:
  "map (\<lambda>p. (action p, reason p))
     (triage [sample_entry ''CVE-2024-1'' ''a/b'' CRITICAL None ''unknown'' St_pending]
        DEFAULT_POLICY)
   = [(skip, ''No patched version available yet'')]"
  by (simp add: triage_def sort_cmp_def sample_entry_def DEFAULT_POLICY_def meetsThreshold_def
      indexOf_SEVERITY_ORDER)

section \<open>State layer: facts\<close>

subsection \<open>Keys and pairs\<close>

text \<open>
  The key joins identifier and repository with \<^verbatim>\<open>::\<close>. On identifiers without a colon
  (CVE and GHSA identifiers have none) equal keys mean equal pairs; in general they do not.
\<close>

lemma key_of_prefix:
  assumes "CHR '':'' \<notin> set i"
  shows "takeWhile (\<lambda>c. c \<noteq> CHR '':'') (key_of i r) = i"
proof -
  have "takeWhile (\<lambda>c. c \<noteq> CHR '':'') (i @ CHR '':'' # CHR '':'' # r) = i"
    using assms by (subst takeWhile_append2) auto
  then show ?thesis by (simp add: key_of_def)
qed

lemma key_of_inj:
  assumes "CHR '':'' \<notin> set i" and "CHR '':'' \<notin> set i'" and "key_of i r = key_of i' r'"
  shows "i = i' \<and> r = r'"
proof -
  have "i = i'"
    using key_of_prefix [OF assms(1), of r] key_of_prefix [OF assms(2), of r'] assms(3) by simp
  then show ?thesis using assms(3) by (simp add: key_of_def)
qed

lemma qkey_eq_iff_id_repo:
  assumes "CHR '':'' \<notin> set (entry_id a)" and "CHR '':'' \<notin> set (entry_id b)"
  shows "qkey a = qkey b \<longleftrightarrow> id_repo a = id_repo b"
  using key_of_inj [OF assms] by (auto simp: qkey_def id_repo_def)

lemma key_of_not_inj: "key_of ''a::b'' ''c'' = key_of ''a'' ''b::c''"
  by (simp add: key_of_def)

lemma wf_queue_Nil: "wf_queue []"
  by (simp add: wf_queue_def)

lemma Map_set_fresh: "k \<notin> fst ` set m \<Longrightarrow> Map_set k v m = m @ [(k, v)]"
  unfolding Map_set_def by (induction m) auto

lemma set_Map_set_subset: "set (Map_set k v m) \<subseteq> insert (k, v) (set m)"
  unfolding Map_set_def by (induction m) auto

lemma wf_queue_Map_set: "wf_queue m \<Longrightarrow> wf_queue (Map_set (qkey e) e m)"
  unfolding wf_queue_def using set_Map_set_subset [of "qkey e" e m]
  by (auto simp: Map_set_def distinct_update)

lemma wf_queue_parseQueue_loop: "wf_queue m \<Longrightarrow> wf_queue (parseQueue_loop m ls)"
  by (induction m ls rule: parseQueue_loop.induct) (simp_all add: wf_queue_Map_set)

lemma wf_queue_parseQueue: "wf_queue (parseQueue raw)"
  unfolding parseQueue_def by (rule wf_queue_parseQueue_loop [OF wf_queue_Nil])

lemma parseQueue_loop_serialized:
  "wf_queue (acc @ m) \<Longrightarrow> parseQueue_loop acc (map Rec (map snd m)) = acc @ m"
proof (induction m arbitrary: acc)
  case Nil
  then show ?case by simp
next
  case (Cons p m)
  obtain k e where p: "p = (k, e)" by (cases p)
  from Cons.prems have d: "distinct (map fst (acc @ p # m))"
    and c: "\<forall>q\<in>set (acc @ p # m). fst q = qkey (snd q)"
    unfolding wf_queue_def by blast+
  from c have k: "k = qkey e" unfolding p by simp
  from d have fresh: "k \<notin> fst ` set acc" unfolding p by auto
  have "(acc @ [(k, e)]) @ m = acc @ p # m" unfolding p by simp
  then have "wf_queue ((acc @ [(k, e)]) @ m)" using Cons.prems by simp
  from Cons.IH [OF this] show ?case
    using Map_set_fresh [OF fresh, of e] by (simp add: p k [symmetric])
qed

lemma parseQueue_serialize: "wf_queue m \<Longrightarrow> parseQueue (serialize m) = m"
  using parseQueue_loop_serialized [of "[]" m]
  by (simp add: parseQueue_def serialize_def Map_values_def)

lemma enqueue_loop_wf:
  "wf_queue m \<Longrightarrow> wf_queue (fst (enqueue_loop (m, a, d) es))"
  by (induction es arbitrary: m a d) (simp_all add: wf_queue_Map_set)

lemma first_new_cong: "set s1 = set s2 \<Longrightarrow> first_new s1 es = first_new s2 es"
proof (induction es arbitrary: s1 s2)
  case Nil
  then show ?case by simp
next
  case (Cons e es)
  have "first_new (qkey e # s1) es = first_new (qkey e # s2) es"
    by (rule Cons.IH) (simp add: Cons.prems)
  moreover have "first_new s1 es = first_new s2 es"
    by (rule Cons.IH) (rule Cons.prems)
  ultimately show ?case using Cons.prems by simp
qed

lemma length_first_new: "length (first_new seen es) \<le> length es"
  by (induction es arbitrary: seen) (auto simp: le_SucI)

lemma enqueue_loop_first_new:
  "enqueue_loop (m, a, d) es =
     (m @ map (\<lambda>e. (qkey e, e)) (first_new (map fst m) es),
      a + length (first_new (map fst m) es),
      d + (length es - length (first_new (map fst m) es)))"
proof (induction es arbitrary: m a d)
  case Nil
  then show ?case by simp
next
  case (Cons e es)
  show ?case
  proof (cases "qkey e \<in> fst ` set m")
    case True
    show ?thesis using True length_first_new [of "map fst m" es] Cons.IH [of m a "d + 1"] by (simp add: Map_has_def)
  next
    case False
    have set_eq: "first_new (map fst m @ [qkey e]) es = first_new (qkey e # map fst m) es"
      by (rule first_new_cong) auto
    show ?thesis using False Cons.IH [of "m @ [(qkey e, e)]" "a + 1" d] Map_set_fresh [OF False, of e]
      by (simp add: Map_has_def set_eq)
  qed
qed

lemma keys_first_new: "qkey ` set (first_new seen es) = qkey ` set es - set seen"
  by (induction es arbitrary: seen) auto

lemma distinct_first_new: "distinct (map qkey (first_new seen es))"
proof (induction es arbitrary: seen)
  case Nil
  then show ?case by simp
next
  case (Cons e es)
  have "qkey e \<notin> qkey ` set (first_new (qkey e # seen) es)"
    unfolding keys_first_new by simp
  then show ?case using Cons.IH by simp
qed

lemma length_first_new_card: "length (first_new seen es) = card (qkey ` set es - set seen)"
proof -
  have "card (set (map qkey (first_new seen es))) = length (map qkey (first_new seen es))"
    by (rule distinct_card) (rule distinct_first_new)
  then show ?thesis using keys_first_new [of seen es] by simp
qed

lemma map_of_first_new:
  "map_of (map (\<lambda>e. (qkey e, e)) (first_new seen es)) k
     = (if k \<in> set seen then None else find (\<lambda>x. qkey x = k) es)"
proof (induction es arbitrary: seen)
  case Nil
  then show ?case by simp
next
  case (Cons e es)
  show ?case
  proof (cases "qkey e \<in> set seen")
    case True
    then show ?thesis using Cons.IH [of seen] by auto
  next
    case False
    then show ?thesis using Cons.IH [of "qkey e # seen"] by auto
  qed
qed

lemma read_queue_serialize: "wf_queue m \<Longrightarrow> read_queue (Some (serialize m)) = m"
  by (simp add: read_queue_def or_empty_def parseQueue_serialize)

lemma wf_queue_read_queue: "wf_queue (read_queue raw)"
  by (simp add: read_queue_def wf_queue_parseQueue)

lemma enqueue_read_queue:
  assumes "enqueue es raw = (raw', res)"
  shows "read_queue raw' = read_queue raw
           @ map (\<lambda>e. (qkey e, e)) (first_new (map fst (read_queue raw)) es)"
    and "added res = length (first_new (map fst (read_queue raw)) es)"
    and "duplicates res = length es - length (first_new (map fst (read_queue raw)) es)"
proof -
  let ?m = "read_queue raw"
  let ?m' = "?m @ map (\<lambda>e. (qkey e, e)) (first_new (map fst ?m) es)"
  have loop: "enqueue_loop (?m, 0, 0) es
      = (?m', length (first_new (map fst ?m) es), length es - length (first_new (map fst ?m) es))"
    using enqueue_loop_first_new [of ?m 0 0 es] by simp
  have "wf_queue (fst (enqueue_loop (?m, 0, 0) es))"
    by (rule enqueue_loop_wf) (rule wf_queue_read_queue)
  then have wf: "wf_queue ?m'" unfolding loop by simp
  from assms have raw': "raw' = Some (serialize ?m')"
    and res: "res = \<lparr>added = length (first_new (map fst ?m) es),
                     duplicates = length es - length (first_new (map fst ?m) es)\<rparr>"
    unfolding enqueue_def read_queue_def [symmetric] loop by simp_all
  show "read_queue raw' = ?m'" unfolding raw' by (rule read_queue_serialize [OF wf])
  show "added res = length (first_new (map fst ?m) es)" unfolding res by simp
  show "duplicates res = length es - length (first_new (map fst ?m) es)" unfolding res by simp
qed

text \<open>
  C4. \<open>enqueue\<close> on any store and any batch: every key of the store keeps its entry, all
  fields unchanged and in the same position, whatever the batch carries under that key;
  every entry of the batch whose key the store does not hold is inserted (the first entry
  of the batch with that key, when the batch repeats a key); the keys afterwards are the
  old keys and the keys of the batch; \<open>added\<close> counts the keys that are new and
  \<open>duplicates\<close> every other entry of the batch. The key is the string \<^verbatim>\<open>id::repo\<close> that
  the code builds from the pair; where identifiers have no colon, a key is new exactly
  when the pair \<open>(id, repo)\<close> is, and the fourth part says so for the inserted entries.
\<close>

theorem enqueue_first_write_wins:
  assumes "enqueue es raw = (raw', res)"
  shows "(\<forall>k e. Map_get k (read_queue raw) = Some e \<longrightarrow> Map_get k (read_queue raw') = Some e)
       \<and> take (length (read_queue raw)) (read_queue raw') = read_queue raw
       \<and> (\<forall>e\<in>set es. \<not> Map_has (qkey e) (read_queue raw) \<longrightarrow>
             Map_get (qkey e) (read_queue raw') = find (\<lambda>x. qkey x = qkey e) es)
       \<and> (\<forall>e\<in>set es. CHR '':'' \<notin> set (entry_id e)
               \<and> (\<forall>x\<in>set (Map_values (read_queue raw)).
                     CHR '':'' \<notin> set (entry_id x) \<and> id_repo x \<noteq> id_repo e) \<longrightarrow>
             Map_get (qkey e) (read_queue raw') = find (\<lambda>x. qkey x = qkey e) es)
       \<and> (\<forall>k. Map_has k (read_queue raw') \<longleftrightarrow>
             Map_has k (read_queue raw) \<or> k \<in> qkey ` set es)
       \<and> added res = card (qkey ` set es - fst ` set (read_queue raw))
       \<and> duplicates res = length es - added res"
proof -
  let ?m = "read_queue raw"
  let ?new = "map (\<lambda>e. (qkey e, e)) (first_new (map fst ?m) es)"
  note rq = enqueue_read_queue [OF assms]
  have get: "Map_get k (read_queue raw')
      = (case map_of ?m k of Some e \<Rightarrow> Some e | None \<Rightarrow> find (\<lambda>x. qkey x = k) es)" for k
    unfolding Map_get_def rq(1) map_of_append map_add_def map_of_first_new
    by (auto split: option.splits simp: map_of_eq_None_iff)
  have c1: "\<forall>k e. Map_get k ?m = Some e \<longrightarrow> Map_get k (read_queue raw') = Some e"
    unfolding get by (simp add: Map_get_def)
  have c2: "take (length ?m) (read_queue raw') = ?m"
    unfolding rq(1) by simp
  have c3: "\<forall>e\<in>set es. \<not> Map_has (qkey e) ?m \<longrightarrow>
             Map_get (qkey e) (read_queue raw') = find (\<lambda>x. qkey x = qkey e) es"
    unfolding get Map_has_def by (auto split: option.splits simp: map_of_eq_None_iff [symmetric])
  have new_pair: "\<not> Map_has (qkey e) ?m"
    if e: "CHR '':'' \<notin> set (entry_id e)"
      and m: "\<forall>x\<in>set (Map_values ?m). CHR '':'' \<notin> set (entry_id x) \<and> id_repo x \<noteq> id_repo e"
    for e
  proof
    assume "Map_has (qkey e) ?m"
    then obtain p where p: "p \<in> set ?m" "fst p = qkey e" unfolding Map_has_def by auto
    have "fst p = qkey (snd p)"
      using wf_queue_read_queue [of raw] p(1) unfolding wf_queue_def by blast
    moreover have "snd p \<in> set (Map_values ?m)" using p(1) by (simp add: Map_values_def)
    ultimately show False using qkey_eq_iff_id_repo [of "snd p" e] e m p(2) by auto
  qed
  have c3': "\<forall>e\<in>set es. CHR '':'' \<notin> set (entry_id e)
               \<and> (\<forall>x\<in>set (Map_values ?m).
                     CHR '':'' \<notin> set (entry_id x) \<and> id_repo x \<noteq> id_repo e) \<longrightarrow>
             Map_get (qkey e) (read_queue raw') = find (\<lambda>x. qkey x = qkey e) es"
    using c3 new_pair by blast
  have "fst ` set ?new = qkey ` set es - fst ` set ?m"
    using keys_first_new [of "map fst ?m" es] by (simp add: image_image)
  then have c4: "\<forall>k. Map_has k (read_queue raw') \<longleftrightarrow> Map_has k ?m \<or> k \<in> qkey ` set es"
    unfolding Map_has_def rq(1) by (auto simp: image_Un)
  have c5: "added res = card (qkey ` set es - fst ` set ?m)"
    unfolding rq(2) length_first_new_card by simp
  have c6: "duplicates res = length es - added res"
    unfolding rq(2) rq(3) by simp
  show ?thesis using c1 c2 c3 c3' c4 c5 c6 by blast
qed

theorem enqueue_first_write_wins_witness:
  "enqueue [fww_rescan, fww_new, fww_new] (Some [Rec fww_old])
     = (Some [Rec fww_old, Rec fww_new], \<lparr>added = 1, duplicates = 2\<rparr>)
   \<and> Map_get (qkey fww_rescan) (read_queue (Some [Rec fww_old])) = Some fww_old
   \<and> Map_get (qkey fww_rescan) (read_queue (Some [Rec fww_old, Rec fww_new])) = Some fww_old
   \<and> \<not> Map_has (qkey fww_new) (read_queue (Some [Rec fww_old]))
   \<and> Map_get (qkey fww_new) (read_queue (Some [Rec fww_old, Rec fww_new])) = Some fww_new"
proof -
  have run: "enqueue [fww_rescan, fww_new, fww_new] (Some [Rec fww_old])
     = (Some [Rec fww_old, Rec fww_new], \<lparr>added = 1, duplicates = 2\<rparr>)"
    by (simp add: enqueue_def parseQueue_def or_empty_def Map_set_def Map_has_def qkey_def
      key_of_def sample_entry_def serialize_def Map_values_def fww_old_def fww_rescan_def
      fww_new_def)
  have old: "Map_get (qkey fww_rescan) (read_queue (Some [Rec fww_old])) = Some fww_old"
    by (simp add: Map_get_def read_queue_def parseQueue_def or_empty_def Map_set_def qkey_def
      key_of_def sample_entry_def fww_old_def fww_rescan_def)
  have new: "\<not> Map_has (qkey fww_new) (read_queue (Some [Rec fww_old]))"
    by (simp add: Map_has_def read_queue_def parseQueue_def or_empty_def Map_set_def qkey_def
      key_of_def sample_entry_def fww_old_def fww_new_def)
  have f: "find (\<lambda>x. qkey x = qkey fww_new) [fww_rescan, fww_new, fww_new] = Some fww_new"
    by (simp add: qkey_def key_of_def sample_entry_def fww_rescan_def fww_new_def)
  show ?thesis
    using run old new f enqueue_first_write_wins [OF run] by simp
qed

lemma distinct_map_comp: "distinct (map (\<lambda>x. f (g x)) xs) \<Longrightarrow> distinct (map g xs)"
  by (induction xs) auto

lemma wf_queue_distinct_id_repo:
  assumes "wf_queue m"
  shows "distinct (map id_repo (Map_values m))"
proof -
  have d: "distinct (map fst m)" and k: "\<And>p. p \<in> set m \<Longrightarrow> fst p = qkey (snd p)"
    using assms unfolding wf_queue_def by blast+
  have "map fst m = map (\<lambda>p. qkey (snd p)) m"
    by (rule map_cong [OF refl]) (rule k)
  also have "\<dots> = map (\<lambda>p. (\<lambda>ir. key_of (fst ir) (snd ir)) (id_repo (snd p))) m"
    by (simp add: qkey_def id_repo_def)
  finally have eq: "map fst m = map (\<lambda>p. (\<lambda>ir. key_of (fst ir) (snd ir)) (id_repo (snd p))) m" .
  have "distinct (map (\<lambda>p. (\<lambda>ir. key_of (fst ir) (snd ir)) (id_repo (snd p))) m)"
    using d unfolding eq .
  then have "distinct (map (\<lambda>p. id_repo (snd p)) m)"
    by (rule distinct_map_comp)
  then show ?thesis by (simp add: Map_values_def comp_def)
qed

lemma line_entries_map_Rec: "line_entries (map (Rec \<circ> f) xs) = map f xs"
  by (induction xs) simp_all

lemma line_entries_serialize: "line_entries (serialize m) = Map_values m"
  by (simp add: serialize_def Map_values_def line_entries_map_Rec)

lemma enqueue_writes_wf: "\<exists>m. wf_queue m \<and> fst (enqueue b raw) = Some (serialize m)"
proof -
  have "wf_queue (fst (enqueue_loop (parseQueue (or_empty raw), 0, 0) b))"
    by (rule enqueue_loop_wf) (rule wf_queue_parseQueue)
  then show ?thesis
    by (auto simp: enqueue_def split: prod.splits)
qed

lemma enqueue_all_writes_wf:
  "bs \<noteq> [] \<Longrightarrow> \<exists>m. wf_queue m \<and> enqueue_all bs raw = Some (serialize m)"
proof (induction bs arbitrary: raw)
  case Nil
  then show ?case by simp
next
  case (Cons b bs)
  show ?case
  proof (cases "bs = []")
    case True
    then show ?thesis using enqueue_writes_wf [of b raw] by simp
  next
    case False
    then show ?thesis using Cons.IH [of "fst (enqueue b raw)"] by simp
  qed
qed

text \<open>
  C5. After any run of \<open>enqueue\<close> calls from any store (malformed lines and repeated
  keys on its lines included), the mapping read from the store holds no two entries with
  the same \<open>(id, repo)\<close>; and once at least one call has written the file, no two lines of
  the file carry entries with the same \<open>(id, repo)\<close>.
\<close>

theorem enqueue_key_uniqueness:
  "distinct (map id_repo (Map_values (read_queue (enqueue_all bs raw))))
   \<and> (bs \<noteq> [] \<longrightarrow> distinct (map id_repo (line_entries (or_empty (enqueue_all bs raw)))))"
proof
  show "distinct (map id_repo (Map_values (read_queue (enqueue_all bs raw))))"
    by (rule wf_queue_distinct_id_repo) (rule wf_queue_read_queue)
  show "bs \<noteq> [] \<longrightarrow> distinct (map id_repo (line_entries (or_empty (enqueue_all bs raw))))"
  proof
    assume "bs \<noteq> []"
    then obtain m where m: "wf_queue m" "enqueue_all bs raw = Some (serialize m)"
      using enqueue_all_writes_wf by blast
    show "distinct (map id_repo (line_entries (or_empty (enqueue_all bs raw))))"
      unfolding m(2) using wf_queue_distinct_id_repo [OF m(1)]
      by (simp add: or_empty_def line_entries_serialize)
  qed
qed

theorem enqueue_key_uniqueness_witness:
  "[[fww_new, fww_rescan], [fww_new]] \<noteq> []
   \<and> enqueue_all [[fww_new, fww_rescan], [fww_new]]
         (Some [Malformed, Rec fww_old, Rec fww_old, Spaces])
       = Some [Rec fww_old, Rec fww_new]
   \<and> distinct (map id_repo (line_entries (or_empty
         (enqueue_all [[fww_new, fww_rescan], [fww_new]]
            (Some [Malformed, Rec fww_old, Rec fww_old, Spaces])))))"
proof -
  have run: "enqueue_all [[fww_new, fww_rescan], [fww_new]]
         (Some [Malformed, Rec fww_old, Rec fww_old, Spaces])
       = Some [Rec fww_old, Rec fww_new]"
    by (simp add: enqueue_def parseQueue_def or_empty_def Map_set_def Map_has_def qkey_def
      key_of_def sample_entry_def serialize_def Map_values_def fww_old_def fww_rescan_def
      fww_new_def)
  show ?thesis
    using run enqueue_key_uniqueness [of "[[fww_new, fww_rescan], [fww_new]]"
        "Some [Malformed, Rec fww_old, Rec fww_old, Spaces]"]
    by simp
qed

lemma line_entries_map_filter:
  "line_entries ls = List.map_filter (\<lambda>l. case l of Rec e \<Rightarrow> Some e | _ \<Rightarrow> None) ls"
  by (induction ls rule: line_entries.induct) (simp_all add: List.map_filter_simps)

lemma mset_line_entries_cong:
  assumes "mset ls = mset ls'"
  shows "mset (line_entries ls) = mset (line_entries ls')"
  unfolding line_entries_map_filter map_filter_def
  by (simp add: assms)

lemma parseQueue_loop_distinct_lines:
  assumes "distinct (map qkey (line_entries ls))"
    and "qkey ` set (line_entries ls) \<inter> fst ` set acc = {}"
  shows "parseQueue_loop acc ls = acc @ map (\<lambda>e. (qkey e, e)) (line_entries ls)"
  using assms
proof (induction acc ls rule: parseQueue_loop.induct)
  case (2 m e ls)
  have fresh: "qkey e \<notin> fst ` set m" using "2.prems"(2) by auto
  have step: "Map_set (qkey e) e m = m @ [(qkey e, e)]" by (rule Map_set_fresh [OF fresh])
  have d: "distinct (map qkey (line_entries ls))" using "2.prems"(1) by simp
  have "qkey e \<notin> qkey ` set (line_entries ls)" using "2.prems"(1) by simp
  then have i: "qkey ` set (line_entries ls) \<inter> fst ` set (Map_set (qkey e) e m) = {}"
    unfolding step using "2.prems"(2) by auto
  show ?case using "2.IH" [OF d i] by (simp add: step)
qed simp_all

lemma parseQueue_distinct_lines:
  "distinct (map qkey (line_entries ls))
     \<Longrightarrow> parseQueue ls = map (\<lambda>e. (qkey e, e)) (line_entries ls)"
  using parseQueue_loop_distinct_lines [of ls "[]"] by (simp add: parseQueue_def)

lemma wf_queue_keys: "wf_queue m \<Longrightarrow> map (\<lambda>e. (qkey e, e)) (Map_values m) = m"
  unfolding wf_queue_def Map_values_def by (induction m) auto

lemma wf_queue_distinct_qkey: "wf_queue m \<Longrightarrow> distinct (map qkey (Map_values m))"
proof -
  assume wf: "wf_queue m"
  have "map fst (map (\<lambda>e. (qkey e, e)) (Map_values m)) = map qkey (Map_values m)"
    by (simp add: comp_def)
  then show ?thesis using wf wf_queue_keys [OF wf] by (simp add: wf_queue_def)
qed

text \<open>
  C9. For a queue mapping with distinct keys, each entry under the key built from its
  \<open>id\<close> and \<open>repo\<close>: parsing the serialization gives the mapping back; and parsing the
  serialized lines in any order gives a mapping with the same keys and the same entry
  under each key.
\<close>

theorem serialize_parse_roundtrip:
  assumes "wf_queue m"
  shows "parseQueue (serialize m) = m
       \<and> (\<forall>ls. mset ls = mset (serialize m) \<longrightarrow>
             set (parseQueue ls) = set m \<and> map_of (parseQueue ls) = map_of m)"
proof
  show "parseQueue (serialize m) = m" by (rule parseQueue_serialize [OF assms])
  show "\<forall>ls. mset ls = mset (serialize m) \<longrightarrow>
             set (parseQueue ls) = set m \<and> map_of (parseQueue ls) = map_of m"
  proof (intro allI impI)
    fix ls
    assume perm: "mset ls = mset (serialize m)"
    have ms: "mset (line_entries ls) = mset (Map_values m)"
      using mset_line_entries_cong [OF perm] by (simp add: line_entries_serialize)
    then have "mset (map qkey (line_entries ls)) = mset (map qkey (Map_values m))"
      by simp
    then have d: "distinct (map qkey (line_entries ls))"
      using wf_queue_distinct_qkey [OF assms] mset_eq_imp_distinct_iff by blast
    have p: "parseQueue ls = map (\<lambda>e. (qkey e, e)) (line_entries ls)"
      by (rule parseQueue_distinct_lines [OF d])
    have "set (parseQueue ls) = (\<lambda>e. (qkey e, e)) ` set (line_entries ls)"
      unfolding p by simp
    also have "\<dots> = (\<lambda>e. (qkey e, e)) ` set (Map_values m)"
      using mset_eq_setD [OF ms] by simp
    also have "\<dots> = set (map (\<lambda>e. (qkey e, e)) (Map_values m))" by simp
    also have "\<dots> = set m" unfolding wf_queue_keys [OF assms] ..
    finally have s: "set (parseQueue ls) = set m" .
    have "distinct (map fst (parseQueue ls))" "distinct (map fst m)"
      using wf_queue_parseQueue [of ls] assms unfolding wf_queue_def by blast+
    then have "map_of (parseQueue ls) = map_of m"
      using s by (simp add: map_of_inject_set)
    with s show "set (parseQueue ls) = set m \<and> map_of (parseQueue ls) = map_of m" ..
  qed
qed

theorem serialize_parse_roundtrip_witness:
  "wf_queue [(qkey fww_old, fww_old), (qkey fww_new, fww_new)]
   \<and> parseQueue (serialize [(qkey fww_old, fww_old), (qkey fww_new, fww_new)])
       = [(qkey fww_old, fww_old), (qkey fww_new, fww_new)]
   \<and> mset [Rec fww_new, Rec fww_old]
       = mset (serialize [(qkey fww_old, fww_old), (qkey fww_new, fww_new)])
   \<and> map_of (parseQueue [Rec fww_new, Rec fww_old])
       = map_of [(qkey fww_old, fww_old), (qkey fww_new, fww_new)]"
proof -
  have wf: "wf_queue [(qkey fww_old, fww_old), (qkey fww_new, fww_new)]"
    by (simp add: wf_queue_def qkey_def key_of_def fww_old_def fww_new_def sample_entry_def)
  have perm: "mset [Rec fww_new, Rec fww_old]
       = mset (serialize [(qkey fww_old, fww_old), (qkey fww_new, fww_new)])"
    by (simp add: serialize_def Map_values_def)
  show ?thesis
    using wf perm serialize_parse_roundtrip [OF wf] by blast
qed

lemma same_outside_resolution_iff:
  "same_outside_resolution e e' \<longleftrightarrow>
     entry_id e' = entry_id e \<and> ghsaId e' = ghsaId e \<and> repo e' = repo e
     \<and> ecosystem e' = ecosystem e \<and> affectedPackage e' = affectedPackage e
     \<and> affectedVersion e' = affectedVersion e \<and> patchedVersion e' = patchedVersion e
     \<and> severity e' = severity e \<and> cvssScore e' = cvssScore e \<and> summary e' = summary e
     \<and> nvdUrl e' = nvdUrl e \<and> detectedAt e' = detectedAt e"
  unfolding same_outside_resolution_def by (cases e; cases e') auto

lemma same_outside_resolution_refl: "same_outside_resolution e e"
  by (simp add: same_outside_resolution_iff)

lemma same_outside_resolution_trans:
  "same_outside_resolution a b \<Longrightarrow> same_outside_resolution b c \<Longrightarrow> same_outside_resolution a c"
  by (simp add: same_outside_resolution_iff)

lemma same_outside_resolution_apply: "same_outside_resolution e (apply_update now u e)"
  by (simp add: same_outside_resolution_iff apply_update_def)

lemma qkey_apply_update: "qkey (apply_update now u e) = qkey e"
  by (simp add: qkey_def apply_update_def)

lemma update_frame_for_refl: "update_frame_for [] k e e"
  by (simp add: update_frame_for_def same_outside_resolution_refl)

lemma update_frame_for_skip:
  "update_frame_for us k e e' \<Longrightarrow> update_frame_for (u # us) k e e'"
  unfolding update_frame_for_def by simp

lemma update_frame_for_other:
  "update_frame_for us k e e' \<Longrightarrow> ukey u \<noteq> k \<Longrightarrow> update_frame_for (u # us) k e e'"
  unfolding update_frame_for_def by simp

lemma update_frame_for_step:
  assumes "update_frame_for us k (apply_update now u e) e'" and "ukey u = k"
  shows "update_frame_for (u # us) k e e'"
proof -
  let ?e1 = "apply_update now u e"
  have s: "same_outside_resolution e e'"
    using assms(1) same_outside_resolution_apply [of e now u] same_outside_resolution_trans
    unfolding update_frame_for_def by blast
  have f: "prNumber ?e1 = nullish_or (u_prNumber u) (prNumber e)"
    "prUrl ?e1 = nullish_or (u_prUrl u) (prUrl e)"
    "skipReason ?e1 = nullish_or (u_skipReason u) (skipReason e)"
    by (simp_all add: apply_update_def)
  have n: "nullish_or None b = b" "b \<noteq> None \<Longrightarrow> nullish_or a b \<noteq> None" for a b :: "'x option"
    by (simp_all add: nullish_or_def split: option.splits)
  show ?thesis
    using assms s unfolding update_frame_for_def f
    by (auto simp: n)
qed

lemma wf_queue_lookup: "wf_queue q \<Longrightarrow> map_of q k = Some e \<Longrightarrow> k = qkey e"
  unfolding wf_queue_def by (auto dest: map_of_SomeD)

lemma Map_set_present_keys:
  "map_of q k = Some e \<Longrightarrow> map fst (Map_set k v q) = map fst q"
  unfolding Map_set_def by (simp add: update_keys map_of_eq_None_iff [symmetric])

lemma update_loop_frame:
  assumes "wf_queue q"
  shows "wf_queue (fst (update_loop now (q, n, nf) us))
       \<and> map fst (fst (update_loop now (q, n, nf) us)) = map fst q
       \<and> (\<forall>k e. map_of q k = Some e \<longrightarrow>
            (\<exists>e'. map_of (fst (update_loop now (q, n, nf) us)) k = Some e'
                  \<and> update_frame_for us k e e'))"
  using assms
proof (induction us arbitrary: q n nf)
  case Nil
  then show ?case by (simp add: update_frame_for_refl)
next
  case (Cons u us)
  show ?case
  proof (cases "Map_get (ukey u) q")
    case None
    then have step: "update_loop now (q, n, nf) (u # us) = update_loop now (q, n, nf + 1) us"
      by simp
    show ?thesis
      unfolding step using Cons.IH [OF Cons.prems, of n "nf + 1"] update_frame_for_skip
      by blast
  next
    case (Some existing)
    let ?e1 = "apply_update now u existing"
    let ?q1 = "Map_set (ukey u) ?e1 q"
    let ?q' = "fst (update_loop now (?q1, n + 1, nf) us)"
    have ex: "map_of q (ukey u) = Some existing" using Some by (simp add: Map_get_def)
    have key: "ukey u = qkey ?e1"
      using wf_queue_lookup [OF Cons.prems ex] by (simp add: qkey_apply_update)
    have step: "update_loop now (q, n, nf) (u # us) = update_loop now (?q1, n + 1, nf) us"
      using Some by simp
    have wf1: "wf_queue ?q1"
      using wf_queue_Map_set [OF Cons.prems, of ?e1] key by simp
    have keys1: "map fst ?q1 = map fst q" by (rule Map_set_present_keys [OF ex])
    have look1: "map_of ?q1 k = (if k = ukey u then Some ?e1 else map_of q k)" for k
      by (simp add: Map_set_def update_conv')
    note IH = Cons.IH [OF wf1, of "n + 1" nf]
    have "\<exists>e'. map_of ?q' k = Some e' \<and> update_frame_for (u # us) k e e'"
      if ke: "map_of q k = Some e" for k e
    proof (cases "k = ukey u")
      case True
      then have e: "e = existing" using ke ex by simp
      from IH look1 [of k] True obtain e' where
        e': "map_of ?q' k = Some e'" "update_frame_for us k ?e1 e'" by auto
      from e'(2) True have "update_frame_for (u # us) k e e'"
        unfolding e by (intro update_frame_for_step) simp_all
      with e'(1) show ?thesis by blast
    next
      case False
      with IH look1 [of k] ke obtain e' where
        e': "map_of ?q' k = Some e'" "update_frame_for us k e e'" by auto
      from e'(2) False have "update_frame_for (u # us) k e e'"
        by (intro update_frame_for_other) simp_all
      with e'(1) show ?thesis by blast
    qed
    then show ?thesis unfolding step using IH keys1 by simp
  qed
qed

text \<open>
  C10. \<open>update\<close> on any store and any batch keeps the keys of the mapping and their order.
  For the entry under each key: the fields other than status, prNumber, prUrl, skipReason
  and processedAt are unchanged; if no update of the batch has that key, the whole entry
  is unchanged; an optional field that every update with that key omits keeps its value;
  and an optional field that had a value still has one. The key of an update is the string
  \<^verbatim>\<open>id::repo\<close> that the code builds; where identifiers have no colon, an entry whose pair
  \<open>(id, repo)\<close> no update names is unchanged, which is the last part.
\<close>

theorem update_frame:
  assumes "update us raw now = (raw', res)"
  shows "map fst (read_queue raw') = map fst (read_queue raw)
       \<and> (\<forall>k e. Map_get k (read_queue raw) = Some e \<longrightarrow>
            (\<exists>e'. Map_get k (read_queue raw') = Some e'
               \<and> same_outside_resolution e e'
               \<and> (k \<notin> ukey ` set us \<longrightarrow> e' = e)
               \<and> ((\<forall>u\<in>set us. ukey u = k \<longrightarrow> u_prNumber u = None) \<longrightarrow> prNumber e' = prNumber e)
               \<and> ((\<forall>u\<in>set us. ukey u = k \<longrightarrow> u_prUrl u = None) \<longrightarrow> prUrl e' = prUrl e)
               \<and> ((\<forall>u\<in>set us. ukey u = k \<longrightarrow> u_skipReason u = None)
                     \<longrightarrow> skipReason e' = skipReason e)
               \<and> (prNumber e \<noteq> None \<longrightarrow> prNumber e' \<noteq> None)
               \<and> (prUrl e \<noteq> None \<longrightarrow> prUrl e' \<noteq> None)
               \<and> (skipReason e \<noteq> None \<longrightarrow> skipReason e' \<noteq> None)))
       \<and> (\<forall>k e. Map_get k (read_queue raw) = Some e \<and> CHR '':'' \<notin> set (entry_id e)
               \<and> (\<forall>u\<in>set us. CHR '':'' \<notin> set (u_id u) \<and> (u_id u, u_repo u) \<noteq> id_repo e)
             \<longrightarrow> Map_get k (read_queue raw') = Some e)"
proof -
  let ?q = "read_queue raw"
  let ?q' = "fst (update_loop now (?q, 0, 0) us)"
  note fr = update_loop_frame [OF wf_queue_read_queue, of now raw 0 0 us]
  from assms have "raw' = Some (serialize ?q')"
    unfolding update_def read_queue_def [symmetric] by (auto split: prod.splits)
  then have rq: "read_queue raw' = ?q'"
    using fr read_queue_serialize by simp
  have unnamed: "k \<notin> ukey ` set us"
    if look: "map_of ?q k = Some e" and e: "CHR '':'' \<notin> set (entry_id e)"
      and us: "\<forall>u\<in>set us. CHR '':'' \<notin> set (u_id u) \<and> (u_id u, u_repo u) \<noteq> id_repo e"
    for k e
  proof
    assume "k \<in> ukey ` set us"
    then obtain u where u: "u \<in> set us" "k = ukey u" by auto
    have "k = qkey e" by (rule wf_queue_lookup [OF wf_queue_read_queue look])
    then have "key_of (u_id u) (u_repo u) = key_of (entry_id e) (repo e)"
      using u(2) by (simp add: ukey_def qkey_def)
    then have "(u_id u, u_repo u) = id_repo e"
      using key_of_inj [of "u_id u" "entry_id e" "u_repo u" "repo e"] e us u(1)
      by (simp add: id_repo_def)
    then show False using us u(1) by blast
  qed
  have pairs: "\<forall>k e. Map_get k ?q = Some e \<and> CHR '':'' \<notin> set (entry_id e)
               \<and> (\<forall>u\<in>set us. CHR '':'' \<notin> set (u_id u) \<and> (u_id u, u_repo u) \<noteq> id_repo e)
             \<longrightarrow> Map_get k ?q' = Some e"
    unfolding Map_get_def using fr unnamed unfolding update_frame_for_def by metis
  have main: "map fst ?q' = map fst ?q
       \<and> (\<forall>k e. Map_get k ?q = Some e \<longrightarrow>
            (\<exists>e'. Map_get k ?q' = Some e'
               \<and> same_outside_resolution e e'
               \<and> (k \<notin> ukey ` set us \<longrightarrow> e' = e)
               \<and> ((\<forall>u\<in>set us. ukey u = k \<longrightarrow> u_prNumber u = None) \<longrightarrow> prNumber e' = prNumber e)
               \<and> ((\<forall>u\<in>set us. ukey u = k \<longrightarrow> u_prUrl u = None) \<longrightarrow> prUrl e' = prUrl e)
               \<and> ((\<forall>u\<in>set us. ukey u = k \<longrightarrow> u_skipReason u = None)
                     \<longrightarrow> skipReason e' = skipReason e)
               \<and> (prNumber e \<noteq> None \<longrightarrow> prNumber e' \<noteq> None)
               \<and> (prUrl e \<noteq> None \<longrightarrow> prUrl e' \<noteq> None)
               \<and> (skipReason e \<noteq> None \<longrightarrow> skipReason e' \<noteq> None)))"
    unfolding Map_get_def using fr unfolding update_frame_for_def by blast
  show ?thesis unfolding rq using main pairs by blast
qed

theorem update_frame_witness:
  "update upd_batch (Some [Rec upd_opened, Rec fww_new]) ''2024-02-01T00:00:00.000Z''
     = (Some [Rec (upd_opened\<lparr>status := St_skipped, skipReason := Some ''superseded'',
                     processedAt := Some ''2024-02-01T00:00:00.000Z''\<rparr>), Rec fww_new],
        \<lparr>updated = 1, notFound = 1\<rparr>)
   \<and> Map_get (qkey upd_opened) (read_queue (Some [Rec upd_opened, Rec fww_new])) = Some upd_opened
   \<and> map u_prNumber (filter (\<lambda>u. ukey u = qkey upd_opened) upd_batch) = [None]
   \<and> (\<exists>e'. Map_get (qkey upd_opened)
               (read_queue (Some [Rec (upd_opened\<lparr>status := St_skipped,
                  skipReason := Some ''superseded'',
                  processedAt := Some ''2024-02-01T00:00:00.000Z''\<rparr>), Rec fww_new])) = Some e'
          \<and> same_outside_resolution upd_opened e' \<and> prNumber e' = prNumber upd_opened)"
proof -
  let ?raw' = "Some [Rec (upd_opened\<lparr>status := St_skipped, skipReason := Some ''superseded'',
                     processedAt := Some ''2024-02-01T00:00:00.000Z''\<rparr>), Rec fww_new]"
  have run: "update upd_batch (Some [Rec upd_opened, Rec fww_new]) ''2024-02-01T00:00:00.000Z''
     = (?raw', \<lparr>updated = 1, notFound = 1\<rparr>)"
    by (simp add: update_def parseQueue_def or_empty_def Map_set_def Map_get_def qkey_def
      ukey_def key_of_def sample_entry_def serialize_def Map_values_def upd_opened_def
      upd_batch_def fww_new_def apply_update_def nullish_or_def)
  have look: "Map_get (qkey upd_opened) (read_queue (Some [Rec upd_opened, Rec fww_new]))
      = Some upd_opened"
    by (simp add: Map_get_def read_queue_def parseQueue_def or_empty_def Map_set_def qkey_def
      key_of_def sample_entry_def upd_opened_def fww_new_def)
  have omit: "\<forall>u\<in>set upd_batch. ukey u = qkey upd_opened \<longrightarrow> u_prNumber u = None"
    by (simp add: upd_batch_def)
  from update_frame [OF run] look omit
  have "\<exists>e'. Map_get (qkey upd_opened) (read_queue ?raw') = Some e'
          \<and> same_outside_resolution upd_opened e' \<and> prNumber e' = prNumber upd_opened"
    by blast
  moreover have "map u_prNumber (filter (\<lambda>u. ukey u = qkey upd_opened) upd_batch) = [None]"
    by (simp add: upd_batch_def ukey_def qkey_def key_of_def upd_opened_def sample_entry_def)
  ultimately show ?thesis using run look by blast
qed

lemma older_than_code:
  "(ts \<noteq> [] \<and> (case getTime ts of None \<Rightarrow> False | Some t \<Rightarrow> t < cutoff))
     \<longleftrightarrow> older_than getTime cutoff ts"
  by (auto simp: older_than_def split: option.splits)

lemma Map_delete_filter: "Map_delete k q = filter (\<lambda>p. fst p \<noteq> k) q"
  unfolding Map_delete_def AList.delete_eq by (rule filter_cong) auto

lemma compact_loop_filter:
  "fst (compact_loop g c (q, rbs) rest)
     = filter (\<lambda>p. fst p \<notin> fst ` {x \<in> set rest. expired g c (snd x)}) q"
proof (induction rest arbitrary: q rbs)
  case Nil
  then show ?case by simp
next
  case (Cons x rest)
  obtain key e where x: "x = (key, e)" by (cases x)
  let ?K = "fst ` {x \<in> set rest. expired g c (snd x)}"
  show ?case
  proof (cases "expired g c e")
    case True
    then have step: "compact_loop g c (q, rbs) (x # rest)
        = compact_loop g c (Map_delete key q, bump (status e) rbs) rest"
      unfolding x expired_def resolution_timestamp_def older_than_code [symmetric]
      by (simp add: Let_def split: option.splits)
    have "{y \<in> set (x # rest). expired g c (snd y)}
        = insert x {y \<in> set rest. expired g c (snd y)}"
      using True unfolding x by auto
    then have K: "fst ` {y \<in> set (x # rest). expired g c (snd y)} = insert key ?K"
      by (simp add: x)
    show ?thesis
      unfolding step K Cons.IH Map_delete_filter by (auto intro: filter_cong)
  next
    case False
    then have step: "compact_loop g c (q, rbs) (x # rest) = compact_loop g c (q, rbs) rest"
      unfolding x expired_def resolution_timestamp_def older_than_code [symmetric]
      by (auto simp: Let_def split: option.splits)
    have K: "fst ` {y \<in> set (x # rest). expired g c (snd y)} = ?K"
      using False unfolding x by auto
    show ?thesis unfolding step K Cons.IH ..
  qed
qed

lemma compact_loop_self:
  assumes "wf_queue q"
  shows "fst (compact_loop g c (q, rbs) q) = filter (\<lambda>p. \<not> expired g c (snd p)) q"
proof -
  have d: "distinct (map fst q)" using assms unfolding wf_queue_def by blast
  have "fst p \<notin> fst ` {x \<in> set q. expired g c (snd x)} \<longleftrightarrow> \<not> expired g c (snd p)"
    if "p \<in> set q" for p
  proof -
    have "snd x = snd p" if "x \<in> set q" "fst x = fst p" for x
      using eq_key_imp_eq_value [OF d, of "fst p" "snd x" "snd p"] that \<open>p \<in> set q\<close>
      by (metis prod.collapse)
    then show ?thesis using that by force
  qed
  then show ?thesis unfolding compact_loop_filter by (intro filter_cong) simp_all
qed

lemma wf_queue_filter: "wf_queue q \<Longrightarrow> wf_queue (filter P q)"
  unfolding wf_queue_def by (simp add: distinct_map_filter)

lemma filter_same_length:
  assumes "length (filter P xs) = length xs"
  shows "filter P xs = xs"
proof (rule ccontr)
  assume "filter P xs \<noteq> xs"
  then obtain x where "x \<in> set xs" "\<not> P x" by (auto simp: filter_id_conv)
  then have "length (filter P xs) < length xs" by (rule length_filter_less)
  with assms show False by simp
qed

lemma falsy_read_queue: "falsy raw \<Longrightarrow> read_queue raw = []"
  unfolding falsy_def read_queue_def or_empty_def parseQueue_def by auto

lemma not_falsy_read_queue: "\<not> falsy raw \<Longrightarrow> parseQueue (the raw) = read_queue raw"
  unfolding falsy_def read_queue_def or_empty_def by (cases raw) auto

lemma compact_queue_filter:
  assumes "compact_queue raw days now getTime = (raw', res)"
  shows "read_queue raw'
           = filter (\<lambda>p. \<not> expired getTime (cutoff_of now days) (snd p)) (read_queue raw)
       \<and> (\<forall>p\<in>set (read_queue raw). status (snd p) = St_pending \<longrightarrow> p \<in> set (read_queue raw'))
       \<and> before res = length (read_queue raw)
       \<and> after res = length (read_queue raw')
       \<and> removed res
           = length (filter (\<lambda>p. expired getTime (cutoff_of now days) (snd p)) (read_queue raw))"
proof -
  let ?c = "cutoff_of now days"
  let ?q = "read_queue raw"
  let ?keep = "filter (\<lambda>p. \<not> expired getTime ?c (snd p)) ?q"
  have pend: "\<forall>p\<in>set ?q. status (snd p) = St_pending \<longrightarrow> p \<in> set ?keep"
    by (simp add: expired_def)
  have cnt: "length ?q - length ?keep = length (filter (\<lambda>p. expired getTime ?c (snd p)) ?q)"
    using sum_length_filter_compl [of "\<lambda>p. expired getTime ?c (snd p)" ?q] by simp
  have main: "read_queue raw' = ?keep \<and> before res = length ?q \<and> after res = length ?keep
      \<and> removed res = length ?q - length ?keep"
  proof (cases "falsy raw")
    case True
    then show ?thesis using assms falsy_read_queue [OF True] by (auto simp: compact_queue_def)
  next
    case False
    obtain rbs where loop: "compact_loop getTime ?c (?q, []) ?q = (?keep, rbs)"
      using compact_loop_self [OF wf_queue_read_queue, of getTime ?c raw "[]"]
      by (cases "compact_loop getTime ?c (?q, []) ?q") simp
    from assms False have raw': "raw' = (if length ?q - length ?keep > 0
          then Some (serialize ?keep) else raw)"
      and res: "res = \<lparr>before = length ?q, after = length ?keep,
                 removed = length ?q - length ?keep, byStatus = rbs\<rparr>"
      unfolding compact_queue_def not_falsy_read_queue [OF False] Let_def loop by simp_all
    have "read_queue raw' = ?keep"
    proof (cases "length ?q - length ?keep > 0")
      case True
      then show ?thesis unfolding raw'
        using read_queue_serialize [OF wf_queue_filter [OF wf_queue_read_queue]] by simp
    next
      case False
      then have "length ?keep = length ?q"
        using length_filter_le [of "\<lambda>p. \<not> expired getTime ?c (snd p)" ?q] by linarith
      then have "?keep = ?q" by (rule filter_same_length)
      then show ?thesis unfolding raw' using False by simp
    qed
    then show ?thesis unfolding res by simp
  qed
  show ?thesis using main pend cnt by simp
qed

text \<open>
  C3. \<open>compact\<close> on any store, with a retention window of \<open>d\<close> days (30 when none is
  given), at the instant \<open>now\<close>: the mapping afterwards is the mapping before without the
  entries that are not pending and whose resolution timestamp (\<open>processedAt\<close>, else
  \<open>detectedAt\<close>) denotes an instant before \<open>now - d * 86400000\<close> milliseconds; every other
  entry stays, with its fields and its position; in particular every pending entry stays.
  The result counts the mapping before and after and the entries removed.
\<close>

theorem compact_removes_expired:
  assumes "compact_queue raw days now getTime = (raw', res)"
    and "d = (case days of None \<Rightarrow> 30 | Some n \<Rightarrow> n)"
  shows "read_queue raw'
           = filter (\<lambda>p. \<not> expired getTime (now - d * 86400000) (snd p)) (read_queue raw)
       \<and> (\<forall>p\<in>set (read_queue raw). status (snd p) = St_pending \<longrightarrow> p \<in> set (read_queue raw'))
       \<and> (\<forall>p\<in>set (read_queue raw).
            p \<in> set (read_queue raw') \<longleftrightarrow>
              (status (snd p) = St_pending
               \<or> (case processedAt (snd p) of Some ts \<Rightarrow> ts | None \<Rightarrow> detectedAt (snd p)) = []
               \<or> (\<forall>t. getTime (case processedAt (snd p) of Some ts \<Rightarrow> ts
                               | None \<Rightarrow> detectedAt (snd p)) = Some t
                        \<longrightarrow> now - d * 86400000 \<le> t)))
       \<and> before res = length (read_queue raw)
       \<and> after res = length (read_queue raw')
       \<and> removed res
           = length (filter (\<lambda>p. expired getTime (now - d * 86400000) (snd p)) (read_queue raw))"
proof -
  have c: "cutoff_of now days = now - d * 86400000"
    by (simp add: cutoff_of_def assms(2))
  note f = compact_queue_filter [OF assms(1), unfolded c]
  have x: "\<not> expired getTime (now - d * 86400000) e \<longleftrightarrow>
      (status e = St_pending
       \<or> (case processedAt e of Some ts \<Rightarrow> ts | None \<Rightarrow> detectedAt e) = []
       \<or> (\<forall>t. getTime (case processedAt e of Some ts \<Rightarrow> ts | None \<Rightarrow> detectedAt e) = Some t
                \<longrightarrow> now - d * 86400000 \<le> t))" for e
    unfolding expired_def older_than_def resolution_timestamp_def by auto
  have m: "\<forall>p\<in>set (read_queue raw).
            p \<in> set (read_queue raw') \<longleftrightarrow>
              (status (snd p) = St_pending
               \<or> (case processedAt (snd p) of Some ts \<Rightarrow> ts | None \<Rightarrow> detectedAt (snd p)) = []
               \<or> (\<forall>t. getTime (case processedAt (snd p) of Some ts \<Rightarrow> ts
                               | None \<Rightarrow> detectedAt (snd p)) = Some t
                        \<longrightarrow> now - d * 86400000 \<le> t))"
    using f x by simp
  show ?thesis using f m by blast
qed

theorem compact_removes_expired_witness:
  "compact_queue (Some [Rec cmp_resolved, Rec cmp_recent, Rec cmp_pending]) (Some 30)
       (100 * 86400000) sample_getTime
     = (Some [Rec cmp_recent, Rec cmp_pending],
        \<lparr>before = 3, after = 2, removed = 1, byStatus = [(St_pr_opened, 1)]\<rparr>)
   \<and> read_queue (Some [Rec cmp_recent, Rec cmp_pending])
       = filter (\<lambda>p. \<not> expired sample_getTime (100 * 86400000 - 30 * 86400000) (snd p))
           (read_queue (Some [Rec cmp_resolved, Rec cmp_recent, Rec cmp_pending]))
   \<and> read_queue (Some [Rec cmp_resolved, Rec cmp_recent, Rec cmp_pending])
       = [(qkey cmp_resolved, cmp_resolved), (qkey cmp_recent, cmp_recent),
          (qkey cmp_pending, cmp_pending)]
   \<and> read_queue (Some [Rec cmp_recent, Rec cmp_pending])
       = [(qkey cmp_recent, cmp_recent), (qkey cmp_pending, cmp_pending)]
   \<and> expired sample_getTime (100 * 86400000 - 30 * 86400000) cmp_resolved
   \<and> \<not> expired sample_getTime (100 * 86400000 - 30 * 86400000) cmp_recent
   \<and> \<not> expired sample_getTime (100 * 86400000 - 30 * 86400000) cmp_pending"
proof -
  have run: "compact_queue (Some [Rec cmp_resolved, Rec cmp_recent, Rec cmp_pending]) (Some 30)
       (100 * 86400000) sample_getTime
     = (Some [Rec cmp_recent, Rec cmp_pending],
        \<lparr>before = 3, after = 2, removed = 1, byStatus = [(St_pr_opened, 1)]\<rparr>)"
    by (simp add: compact_queue_def falsy_def parseQueue_def Map_set_def Map_delete_def qkey_def
      key_of_def sample_entry_def serialize_def Map_values_def cmp_resolved_def cmp_recent_def
      cmp_pending_def cutoff_of_def sample_getTime_def bump_def AList.delete_eq)
  have d: "(30::int) = (case Some 30 of None \<Rightarrow> 30 | Some n \<Rightarrow> n)" by simp
  have q: "read_queue (Some [Rec cmp_resolved, Rec cmp_recent, Rec cmp_pending])
       = [(qkey cmp_resolved, cmp_resolved), (qkey cmp_recent, cmp_recent),
          (qkey cmp_pending, cmp_pending)]"
    by (simp add: read_queue_def or_empty_def parseQueue_def Map_set_def qkey_def key_of_def
      sample_entry_def cmp_resolved_def cmp_recent_def cmp_pending_def)
  have q': "read_queue (Some [Rec cmp_recent, Rec cmp_pending])
       = [(qkey cmp_recent, cmp_recent), (qkey cmp_pending, cmp_pending)]"
    by (simp add: read_queue_def or_empty_def parseQueue_def Map_set_def qkey_def key_of_def
      sample_entry_def cmp_recent_def cmp_pending_def)
  have old: "expired sample_getTime (100 * 86400000 - 30 * 86400000) cmp_resolved"
    by (simp add: expired_def older_than_def resolution_timestamp_def sample_getTime_def
      cmp_resolved_def sample_entry_def)
  have recent: "\<not> expired sample_getTime (100 * 86400000 - 30 * 86400000) cmp_recent"
    by (simp add: expired_def older_than_def resolution_timestamp_def sample_getTime_def
      cmp_recent_def sample_entry_def)
  have pend: "\<not> expired sample_getTime (100 * 86400000 - 30 * 86400000) cmp_pending"
    by (simp add: expired_def cmp_pending_def sample_entry_def)
  from compact_removes_expired [OF run d]
  have flt: "read_queue (Some [Rec cmp_recent, Rec cmp_pending])
       = filter (\<lambda>p. \<not> expired sample_getTime (100 * 86400000 - 30 * 86400000) (snd p))
           (read_queue (Some [Rec cmp_resolved, Rec cmp_recent, Rec cmp_pending]))"
    by (rule conjunct1)
  show ?thesis
    using run flt q q' old recent pend by blast
qed

lemma pending_characterisation:
  "pending raw = take 1000 (sort_cmp compareEntries
      (filter (\<lambda>e. status e = St_pending \<and> meetsThreshold (severity e) LOW)
         (Map_values (read_queue raw))))"
proof (cases "falsy raw")
  case True
  then show ?thesis
    using falsy_read_queue [OF True]
    by (simp add: pending_def list_queue_def Map_values_def sort_cmp_def)
next
  case False
  have keep: "list_keep (Only St_pending) None (indexOf SEVERITY_ORDER LOW)
      = (\<lambda>e. status e = St_pending \<and> meetsThreshold (severity e) LOW)"
    by (rule ext) (auto simp: list_keep_def meetsThreshold_def)
  show ?thesis
    using False
    by (simp add: pending_def list_queue_def Let_def keep not_falsy_read_queue slice0_def)
qed

text \<open>
  C2. \<open>pending\<close> does not return every pending entry: it goes through \<open>list\<close> without a
  minimum severity, and \<open>list\<close> then filters at its default, LOW. A store whose only entry
  is pending with severity UNKNOWN (or NONE) has no pending entry according to
  \<open>pending\<close>.
\<close>

theorem pending_drops_unranked:
  "status unranked_pending = St_pending
   \<and> Map_values (read_queue (Some [Rec unranked_pending])) = [unranked_pending]
   \<and> pending (Some [Rec unranked_pending]) = []"
  by (simp add: pending_def list_queue_def falsy_def parseQueue_def Map_set_def Map_values_def
      read_queue_def or_empty_def list_keep_def unranked_pending_def sample_entry_def
      indexOf_SEVERITY_ORDER sort_cmp_def slice0_def)

section \<open>Action layer: facts\<close>

lemma execute_loop_step:
  "execute_loop plat github dryRun acc (plan # rest) w
     = (case run_plan plat github dryRun plan w of
          (Inr r, w') \<Rightarrow> execute_loop plat github dryRun (acc @ [r]) rest w'
        | (Inl t, w') \<Rightarrow> (Inl t, w'))"
  by (simp add: run_plan_def split: prod.splits sum.splits)

lemma execute_loop_results:
  "execute_loop plat github dryRun acc plans w
     = (case execute_loop plat github dryRun [] plans w of
          (Inr rs, w') \<Rightarrow> (Inr (acc @ rs), w')
        | (Inl t, w') \<Rightarrow> (Inl t, w'))"
proof (induction plans arbitrary: acc w)
  case Nil
  then show ?case by simp
next
  case (Cons plan rest)
  show ?case
  proof (cases "run_plan plat github dryRun plan w")
    case (Pair outcome w1)
    show ?thesis
    proof (cases outcome)
      case (Inl t)
      then show ?thesis unfolding execute_loop_step Pair by simp
    next
      case (Inr r)
      show ?thesis
        unfolding execute_loop_step Pair Inr
        using Cons.IH [of "acc @ [r]" w1] Cons.IH [of "[r]" w1]
        by (simp split: prod.splits sum.splits)
    qed
  qed
qed


lemma execute_Cons:
  "execute plat (plan # rest) github dryRun w
     = (case run_plan plat github dryRun plan w of
          (Inl t, w') \<Rightarrow> (Inl t, w')
        | (Inr r, w') \<Rightarrow>
            (case execute plat rest github dryRun w' of
               (Inr rs, w2) \<Rightarrow> (Inr (r # rs), w2)
             | (Inl t, w2) \<Rightarrow> (Inl t, w2)))"
  unfolding execute_def execute_loop_step
  using execute_loop_results [of plat github dryRun "[r]" rest for r]
  by (simp split: prod.splits sum.splits)






text \<open>
  A rejection with \<^verbatim>\<open>null\<close> or \<^verbatim>\<open>undefined\<close> is the one failure the loop does not contain:
  the \<^verbatim>\<open>catch\<close> clause throws on it and \<open>execute\<close> rejects, whatever plans are left.
\<close>

lemma execute_rejects_on_nullish:
  assumes "action plan \<noteq> skip" and "\<not> dryRun"
    and "try_block plat github plan w = (Inl Thrown_nullish, w')"
  shows "execute plat (plan # later) github dryRun w = (Inl (Thrown_Error TypeError_message), w')"
  unfolding execute_Cons [of _ plan] using assms by (simp add: run_plan_def catch_clause_def)



section \<open>Detection layer: facts\<close>

lemma detect_reposScanned:
  "detect ps fetch now repos threshold github w = (Inr r, w') \<Longrightarrow> reposScanned r = length repos"
  by (auto simp: detect_def io_bind_def io_return_def split: prod.splits sum.splits)

lemma deps_loop_rejects:
  assumes "pkgName \<noteq> []" and "take 2 pkgName \<noteq> ''//''"
    and "queryGhsa fetch eco pkgName tok w = (Inl t, w')"
  shows "deps_loop fetch tok now thresholdIdx repoFull eco st ((pkgName, pkgVersion) # deps) w
           = (Inl t, w')"
  using assms by (simp add: io_bind_def)

lemma detect_skips_refused_query:
  "(case fst (detect sample_parsers fetch_refused ''2024-03-01T00:00:00.000Z''
               [''a/b'', ''c/d''] HIGH detect_github 0) of
      Inl msg \<Rightarrow> False
    | Inr r \<Rightarrow> reposScanned r = 2
        \<and> map id_repo (findings r) = [(''CVE-2024-5'', ''a/b''), (''CVE-2024-5'', ''c/d'')])"
  by (simp add: detect_def io_bind_def io_return_def io_lift_def io_try_def detect_github_def
      sample_github_def sample_parsers_def fetch_refused_def express_advisory_def
      MANIFEST_PATHS_def parseManifest_def queryGhsa_def ECOSYSTEM_MAP_def nth_opt_def
      normalizeSeverity_def toUpperCase_def upper_char_def indexOf_SEVERITY_ORDER key_of_def
      advisory_id_def id_repo_def Let_def)

text \<open>
  C7. \<open>detect\<close> does not isolate a query that raises. With two repositories to scan,
  each with the packages lodash and express, and the network failing on the request for
  lodash, \<open>detect\<close> ends with that rejection: there is no result, so no \<open>reposScanned\<close>, and
  neither express nor the second repository is scanned. (A query the server answers with
  an error status is skipped, as \<open>detect_skips_refused_query\<close> shows, and a result that
  is returned does report every repository, as \<open>detect_reposScanned\<close> shows.)
\<close>

theorem detect_aborts_on_rejected_query:
  "detect sample_parsers fetch_down ''2024-03-01T00:00:00.000Z'' [''a/b'', ''c/d''] HIGH
     detect_github 0
   = (Inl (Thrown_Error ''fetch failed''), 0)"
  by (simp add: detect_def io_bind_def io_return_def io_lift_def io_try_def detect_github_def
      sample_github_def sample_parsers_def fetch_down_def express_advisory_def
      MANIFEST_PATHS_def parseManifest_def queryGhsa_def ECOSYSTEM_MAP_def nth_opt_def
      indexOf_SEVERITY_ORDER Let_def)

end
